theory Spec2Isabelle
  imports Main "HOL-Library.Word" "HOL-Library.Char_ord" "HOL-Library.List_Lexorder"
    "HOL-Library.Multiset"
begin

unbundle bit_operations_syntax

section \<open>Basic types\<close>

text \<open>
  Go's \<open>uint64\<close> is a 64-bit word, a \<open>byte\<close> an 8-bit word. A Go \<open>string\<close> is a
  sequence of bytes; it is modelled by \<open>string\<close>, whose characters are bytes. The
  conversions \<open>[]byte(s)\<close> and \<open>string(b)\<close> keep the byte sequence.
\<close>

type_synonym u64 = "64 word"
type_synonym byte = "8 word"

definition bytes_of :: "string \<Rightarrow> byte list" where
  "bytes_of s = map of_char s"

text \<open>
  Every \<open>panic\<close> and every \<open>fatal\<close> of the source ends the call; the model returns
  the reason as a value.
\<close>

datatype error =
    CreateError       \<comment> \<open>\<open>os.Create\<close> failed\<close>
  | WriteError        \<comment> \<open>\<open>ioutil.WriteFile\<close> failed\<close>
  | ReadError         \<comment> \<open>\<open>nonce file read error\<close>\<close>
  | SyntaxError       \<comment> \<open>\<open>strconv.ErrSyntax\<close>\<close>
  | RangeError        \<comment> \<open>\<open>strconv.ErrRange\<close>\<close>
  | HttpError string  \<comment> \<open>\<open>fatal\<close> in \<open>query\<close>\<close>

section \<open>strconv: decimal text of an unsigned 64-bit integer\<close>

definition digits :: string where
  "digits = ''0123456789''"

fun formatBits :: "nat \<Rightarrow> string" where
  "formatBits u =
     (if u < 10 then [digits ! u] else formatBits (u div 10) @ [digits ! (u mod 10)])"

declare formatBits.simps [simp del]

text \<open>\<open>strconv.FormatUint(i, 10)\<close>.\<close>

definition FormatUint :: "u64 \<Rightarrow> string" where
  "FormatUint i = formatBits (unat i)"

definition maxUint64 :: nat where
  "maxUint64 = 2 ^ 64 - 1"

text \<open>The smallest number whose product with the base 10 exceeds \<open>maxUint64\<close>.\<close>

definition cutoff :: nat where
  "cutoff = maxUint64 div 10 + 1"

text \<open>
  The loop of \<open>strconv.ParseUint(s, 10, 64)\<close> over the bytes of \<open>s\<close>. The accumulator
  is a \<open>uint64\<close>, written as a natural number with the wrap-around spelled out.
\<close>

fun ParseUint_loop :: "string \<Rightarrow> nat \<Rightarrow> error + nat" where
  "ParseUint_loop [] n = Inr n"
| "ParseUint_loop (c # cs) n =
     (if \<not> (CHR ''0'' \<le> c \<and> c \<le> CHR ''9'') then Inl SyntaxError
      else if n \<ge> cutoff then Inl RangeError
      else (let d = of_char c - of_char CHR ''0'';
                n10 = (n * 10) mod 2 ^ 64;
                n1 = (n10 + d) mod 2 ^ 64
            in if n1 < n10 \<or> n1 > maxUint64 then Inl RangeError
               else ParseUint_loop cs n1))"

definition ParseUint :: "string \<Rightarrow> error + u64" where
  "ParseUint s =
     (if s = [] then Inl SyntaxError
      else case ParseUint_loop s 0 of Inl e \<Rightarrow> Inl e | Inr n \<Rightarrow> Inr (word_of_nat n))"

section \<open>The nonce file\<close>

text \<open>
  The part of the file system the nonce store touches: the contents of the file
  \<open>data/nonce\<close> (\<open>None\<close> when there is no such file) and whether the operating system
  lets the process create, read and write it.
\<close>

record storage =
  nonce_file :: "string option"
  can_create :: bool
  can_read :: bool
  can_write :: bool

definition ReadFile :: "storage \<Rightarrow> error + string" where
  "ReadFile s =
     (case nonce_file s of
        None \<Rightarrow> Inl ReadError
      | Some data \<Rightarrow> if can_read s then Inr data else Inl ReadError)"

definition WriteNonce :: "storage \<Rightarrow> string \<Rightarrow> error + storage" where
  "WriteNonce s data =
     (if can_write s then Inr (s\<lparr>nonce_file := Some data\<rparr>) else Inl WriteError)"

definition CreateNonceFileIfNotExists :: "storage \<Rightarrow> error + storage" where
  "CreateNonceFileIfNotExists s =
     (case nonce_file s of
        Some data \<Rightarrow> Inr s
      | None \<Rightarrow>
          if \<not> can_create s then Inl CreateError
          else WriteNonce (s\<lparr>nonce_file := Some []\<rparr>) ''1'')"

definition readNonce :: "storage \<Rightarrow> error + (u64 \<times> storage)" where
  "readNonce s =
     (case CreateNonceFileIfNotExists s of
        Inl e \<Rightarrow> Inl e
      | Inr s1 \<Rightarrow>
          (case ReadFile s1 of
             Inl e \<Rightarrow> Inl ReadError
           | Inr data \<Rightarrow>
               (case ParseUint data of
                  Inl conErr \<Rightarrow> Inl conErr
                | Inr nonce \<Rightarrow> Inr (nonce, s1))))"

text \<open>
  \<open>incrementNonce\<close> receives a pointer: it stores the incremented value in the caller's
  variable and writes its decimal text to the file. The model returns the new value of
  the variable.
\<close>

definition incrementNonce :: "storage \<Rightarrow> u64 \<Rightarrow> error + (u64 \<times> storage)" where
  "incrementNonce s nonceOld =
     (let nonceNew = nonceOld + 1;
          ns = FormatUint nonceNew
      in case WriteNonce s ns of
           Inl e \<Rightarrow> Inl e
         | Inr s' \<Rightarrow> Inr (nonceNew, s'))"

text \<open>
  The mutex is held from the first to the last step; one call at a time is what the
  sequential model describes.
\<close>

definition GetAndIncrementNonce :: "storage \<Rightarrow> error + (u64 \<times> storage)" where
  "GetAndIncrementNonce s =
     (case readNonce s of
        Inl e \<Rightarrow> Inl e
      | Inr (nonce, s1) \<Rightarrow> incrementNonce s1 nonce)"

text \<open>
  A run of the client: calls of \<open>GetAndIncrementNonce\<close>, and restarts of the process.
  The process keeps no nonce in memory, so a restart leaves the storage as it is and
  the next call reads the file again.
\<close>

datatype event = Next | Restart

fun run :: "storage \<Rightarrow> event list \<Rightarrow> error + (u64 list \<times> storage)" where
  "run s [] = Inr ([], s)"
| "run s (Restart # evs) = run s evs"
| "run s (Next # evs) =
     (case GetAndIncrementNonce s of
        Inl e \<Rightarrow> Inl e
      | Inr (n, s') \<Rightarrow>
          (case run s' evs of
             Inl e \<Rightarrow> Inl e
           | Inr (ns, s'') \<Rightarrow> Inr (n # ns, s'')))"

definition fresh_storage :: storage where
  "fresh_storage = \<lparr>nonce_file = None, can_create = True, can_read = True, can_write = True\<rparr>"

definition stored :: "string \<Rightarrow> storage" where
  "stored data = \<lparr>nonce_file = Some data, can_create = True, can_read = True, can_write = True\<rparr>"

definition unwritable_storage :: storage where
  "unwritable_storage =
     \<lparr>nonce_file = None, can_create = True, can_read = True, can_write = False\<rparr>"

section \<open>crypto/sha512\<close>

text \<open>
  SHA-512 as the Go standard library computes it (FIPS 180-4): the message is padded to
  a multiple of 128 bytes, and each block of 128 bytes updates a state of eight 64-bit
  words in 80 rounds.
\<close>

text \<open>\<open>bits.RotateLeft64(x, -n)\<close>: rotation to the right by \<open>n\<close> bits.\<close>

definition rotr64 :: "u64 \<Rightarrow> nat \<Rightarrow> u64" where
  "rotr64 x n = drop_bit n x OR push_bit (64 - n) x"

definition sha512_K :: "u64 list" where
  "sha512_K = [
     0x428A2F98D728AE22, 0x7137449123EF65CD, 0xB5C0FBCFEC4D3B2F,
     0xE9B5DBA58189DBBC, 0x3956C25BF348B538, 0x59F111F1B605D019,
     0x923F82A4AF194F9B, 0xAB1C5ED5DA6D8118, 0xD807AA98A3030242,
     0x12835B0145706FBE, 0x243185BE4EE4B28C, 0x550C7DC3D5FFB4E2,
     0x72BE5D74F27B896F, 0x80DEB1FE3B1696B1, 0x9BDC06A725C71235,
     0xC19BF174CF692694, 0xE49B69C19EF14AD2, 0xEFBE4786384F25E3,
     0x0FC19DC68B8CD5B5, 0x240CA1CC77AC9C65, 0x2DE92C6F592B0275,
     0x4A7484AA6EA6E483, 0x5CB0A9DCBD41FBD4, 0x76F988DA831153B5,
     0x983E5152EE66DFAB, 0xA831C66D2DB43210, 0xB00327C898FB213F,
     0xBF597FC7BEEF0EE4, 0xC6E00BF33DA88FC2, 0xD5A79147930AA725,
     0x06CA6351E003826F, 0x142929670A0E6E70, 0x27B70A8546D22FFC,
     0x2E1B21385C26C926, 0x4D2C6DFC5AC42AED, 0x53380D139D95B3DF,
     0x650A73548BAF63DE, 0x766A0ABB3C77B2A8, 0x81C2C92E47EDAEE6,
     0x92722C851482353B, 0xA2BFE8A14CF10364, 0xA81A664BBC423001,
     0xC24B8B70D0F89791, 0xC76C51A30654BE30, 0xD192E819D6EF5218,
     0xD69906245565A910, 0xF40E35855771202A, 0x106AA07032BBD1B8,
     0x19A4C116B8D2D0C8, 0x1E376C085141AB53, 0x2748774CDF8EEB99,
     0x34B0BCB5E19B48A8, 0x391C0CB3C5C95A63, 0x4ED8AA4AE3418ACB,
     0x5B9CCA4F7763E373, 0x682E6FF3D6B2B8A3, 0x748F82EE5DEFB2FC,
     0x78A5636F43172F60, 0x84C87814A1F0AB72, 0x8CC702081A6439EC,
     0x90BEFFFA23631E28, 0xA4506CEBDE82BDE9, 0xBEF9A3F7B2C67915,
     0xC67178F2E372532B, 0xCA273ECEEA26619C, 0xD186B8C721C0C207,
     0xEADA7DD6CDE0EB1E, 0xF57D4F7FEE6ED178, 0x06F067AA72176FBA,
     0x0A637DC5A2C898A6, 0x113F9804BEF90DAE, 0x1B710B35131C471B,
     0x28DB77F523047D84, 0x32CAAB7B40C72493, 0x3C9EBE0A15C9BEBC,
     0x431D67C49C100D4C, 0x4CC5D4BECB3E42B6, 0x597F299CFC657E2A,
     0x5FCB6FAB3AD6FAEC, 0x6C44198C4A475817]"

type_synonym regs = "u64 \<times> u64 \<times> u64 \<times> u64 \<times> u64 \<times> u64 \<times> u64 \<times> u64"

definition sha512_init :: regs where
  "sha512_init =
    (0x6A09E667F3BCC908,
     0xBB67AE8584CAA73B,
     0x3C6EF372FE94F82B,
     0xA54FF53A5F1D36F1,
     0x510E527FADE682D1,
     0x9B05688C2B3E6C1F,
     0x1F83D9ABFB41BD6B,
     0x5BE0CD19137E2179)"

text \<open>\<open>binary.BigEndian.Uint64\<close> and \<open>binary.BigEndian.PutUint64\<close>.\<close>

definition be_u64 :: "byte \<Rightarrow> byte \<Rightarrow> byte \<Rightarrow> byte \<Rightarrow> byte \<Rightarrow> byte \<Rightarrow> byte \<Rightarrow> byte \<Rightarrow> u64" where
  "be_u64 b0 b1 b2 b3 b4 b5 b6 b7 =
     ucast b7 OR push_bit 8 (ucast b6) OR push_bit 16 (ucast b5) OR push_bit 24 (ucast b4) OR
     push_bit 32 (ucast b3) OR push_bit 40 (ucast b2) OR push_bit 48 (ucast b1) OR
     push_bit 56 (ucast b0)"

definition put_u64 :: "u64 \<Rightarrow> byte list" where
  "put_u64 v =
     [ucast (drop_bit 56 v), ucast (drop_bit 48 v), ucast (drop_bit 40 v),
      ucast (drop_bit 32 v), ucast (drop_bit 24 v), ucast (drop_bit 16 v),
      ucast (drop_bit 8 v), ucast v]"

text \<open>The sixteen words of a block.\<close>

fun load_words :: "byte list \<Rightarrow> u64 list" where
  "load_words (b0 # b1 # b2 # b3 # b4 # b5 # b6 # b7 # p) =
     be_u64 b0 b1 b2 b3 b4 b5 b6 b7 # load_words p"
| "load_words p = []"

text \<open>
  The message schedule, \<open>w[i] = t1 + w[i-7] + t2 + w[i-16]\<close> with \<open>t1\<close> from
  \<open>w[i-2]\<close> and \<open>t2\<close> from \<open>w[i-15]\<close>. The argument holds the sixteen words before
  \<open>w[i]\<close>.
\<close>

definition schedule_t1 :: "u64 \<Rightarrow> u64" where
  "schedule_t1 v1 = rotr64 v1 19 XOR rotr64 v1 61 XOR drop_bit 6 v1"

definition schedule_t2 :: "u64 \<Rightarrow> u64" where
  "schedule_t2 v2 = rotr64 v2 1 XOR rotr64 v2 8 XOR drop_bit 7 v2"

fun next_word :: "u64 list \<Rightarrow> u64" where
  "next_word [w0, w1, w2, w3, w4, w5, w6, w7, w8, w9, w10, w11, w12, w13, w14, w15] =
     schedule_t1 w14 + w9 + schedule_t2 w1 + w0"
| "next_word w = 0"

definition round_t1 :: "u64 \<Rightarrow> u64 \<Rightarrow> u64 \<Rightarrow> u64 \<Rightarrow> u64 \<Rightarrow> u64 \<Rightarrow> u64" where
  "round_t1 e f g h k wi =
     h + (rotr64 e 14 XOR rotr64 e 18 XOR rotr64 e 41) + ((e AND f) XOR (NOT e AND g)) + k + wi"

definition round_t2 :: "u64 \<Rightarrow> u64 \<Rightarrow> u64 \<Rightarrow> u64" where
  "round_t2 a b c =
     (rotr64 a 28 XOR rotr64 a 34 XOR rotr64 a 39) + ((a AND b) XOR (a AND c) XOR (b AND c))"

definition round_regs :: "u64 \<Rightarrow> u64 \<Rightarrow> regs \<Rightarrow> regs" where
  "round_regs t1 t2 r =
     (case r of (a, b, c, d, e, f, g, h) \<Rightarrow> (t1 + t2, a, b, c, d + t1, e, f, g))"

text \<open>
  The rounds, one for each constant of \<open>sha512_K\<close>. Round \<open>i\<close> uses \<open>w[i]\<close>, the head
  of the window of sixteen schedule words, and the window moves on by one word.
\<close>

fun rounds :: "u64 list \<Rightarrow> u64 list \<Rightarrow> regs \<Rightarrow> regs" where
  "rounds [] w r = r"
| "rounds (k # ks) w (a, b, c, d, e, f, g, h) =
     rounds ks (tl w @ [next_word w])
       (round_regs (round_t1 e f g h k (hd w)) (round_t2 a b c) (a, b, c, d, e, f, g, h))"

definition add_regs :: "regs \<Rightarrow> regs \<Rightarrow> regs" where
  "add_regs r r' =
     (case r of (h0, h1, h2, h3, h4, h5, h6, h7) \<Rightarrow>
      case r' of (a, b, c, d, e, f, g, h) \<Rightarrow>
        (h0 + a, h1 + b, h2 + c, h3 + d, h4 + e, h5 + f, h6 + g, h7 + h))"

definition block_step :: "regs \<Rightarrow> byte list \<Rightarrow> regs" where
  "block_step r p = add_regs r (rounds sha512_K (load_words p) r)"

text \<open>\<open>block\<close> consumes the data in chunks of 128 bytes.\<close>

function block :: "regs \<Rightarrow> byte list \<Rightarrow> regs" where
  "block r p = (if length p < 128 then r else block (block_step r (take 128 p)) (drop 128 p))"
  by pat_completeness auto
termination
  by (relation "measure (\<lambda>(r, p). length p)") auto

declare block.simps [simp del]

text \<open>
  The padding that \<open>checkSum\<close> appends to a message of \<open>len\<close> bytes: the byte
  \<open>0x80\<close>, zero bytes up to 112 modulo 128, and the length in bits as sixteen bytes,
  of which the upper eight are zero because the length is a \<open>uint64\<close>.
\<close>

definition sha512_padding :: "nat \<Rightarrow> byte list" where
  "sha512_padding len =
     (let t = len mod 128;
          n = (if t < 112 then 112 - t else 128 + 112 - t)
      in 0x80 # replicate (n - 1) 0 @ put_u64 0 @ put_u64 (push_bit 3 (of_nat len)))"

definition regs_bytes :: "regs \<Rightarrow> byte list" where
  "regs_bytes r =
     (case r of (h0, h1, h2, h3, h4, h5, h6, h7) \<Rightarrow>
        put_u64 h0 @ put_u64 h1 @ put_u64 h2 @ put_u64 h3 @
        put_u64 h4 @ put_u64 h5 @ put_u64 h6 @ put_u64 h7)"

definition sha512_Sum :: "byte list \<Rightarrow> byte list" where
  "sha512_Sum msg = regs_bytes (block sha512_init (msg @ sha512_padding (length msg)))"

section \<open>crypto/hmac and encoding/hex\<close>

text \<open>
  \<open>hmac.New(sha512.New, key)\<close>: a key longer than the block size of 128 bytes is hashed
  first; the key is copied into two blocks of zero bytes, and every byte of the one is
  xored with \<open>0x36\<close>, of the other with \<open>0x5c\<close>.
\<close>

definition hmac_key :: "byte list \<Rightarrow> byte list" where
  "hmac_key key = (if length key > 128 then sha512_Sum key else key)"

definition hmac_pad :: "byte \<Rightarrow> byte list \<Rightarrow> byte list" where
  "hmac_pad c key = map (\<lambda>b. b XOR c) (key @ replicate (128 - length key) 0)"

text \<open>
  \<open>mac.Write(message)\<close> and \<open>mac.Sum(nil)\<close>: the inner hash is over the first block
  and the message, the outer hash over the second block and the inner digest.
\<close>

definition hmac_sha512 :: "byte list \<Rightarrow> byte list \<Rightarrow> byte list" where
  "hmac_sha512 key message =
     sha512_Sum (hmac_pad 0x5c (hmac_key key) @
       sha512_Sum (hmac_pad 0x36 (hmac_key key) @ message))"

definition hextable :: string where
  "hextable = ''0123456789abcdef''"

text \<open>\<open>hex.EncodeToString\<close>: two characters of \<open>hextable\<close> for each byte.\<close>

definition hex_EncodeToString :: "byte list \<Rightarrow> string" where
  "hex_EncodeToString src =
     concat (map (\<lambda>v. [hextable ! unat (drop_bit 4 v), hextable ! unat (v AND 0x0f)]) src)"

definition signHmacSha512 :: "byte list \<Rightarrow> byte list \<Rightarrow> string" where
  "signHmacSha512 secret message = hex_EncodeToString (hmac_sha512 secret message)"

section \<open>HMAC-SHA512 as the standards define it\<close>

text \<open>
  The definitions of this section are not taken from the program. They follow the
  wording of FIPS 180-4 (SHA-512), of RFC 2104 (HMAC) and of the specification
  (lowercase hexadecimal text), and are what the signer is compared with.
\<close>

subsection \<open>FIPS 180-4, section 4.1.3: the functions of SHA-512\<close>

definition ROTR :: "nat \<Rightarrow> u64 \<Rightarrow> u64" where
  "ROTR n x = word_rotr n x"

definition SHR :: "nat \<Rightarrow> u64 \<Rightarrow> u64" where
  "SHR n x = drop_bit n x"

definition Ch :: "u64 \<Rightarrow> u64 \<Rightarrow> u64 \<Rightarrow> u64" where
  "Ch x y z = (x AND y) XOR (NOT x AND z)"

definition Maj :: "u64 \<Rightarrow> u64 \<Rightarrow> u64 \<Rightarrow> u64" where
  "Maj x y z = (x AND y) XOR (x AND z) XOR (y AND z)"

definition Sigma0 :: "u64 \<Rightarrow> u64" where
  "Sigma0 x = ROTR 28 x XOR ROTR 34 x XOR ROTR 39 x"

definition Sigma1 :: "u64 \<Rightarrow> u64" where
  "Sigma1 x = ROTR 14 x XOR ROTR 18 x XOR ROTR 41 x"

definition sigma0 :: "u64 \<Rightarrow> u64" where
  "sigma0 x = ROTR 1 x XOR ROTR 8 x XOR SHR 7 x"

definition sigma1 :: "u64 \<Rightarrow> u64" where
  "sigma1 x = ROTR 19 x XOR ROTR 61 x XOR SHR 6 x"

subsection \<open>Section 5: padding and parsing\<close>

text \<open>
  A message of \<open>l\<close> bits is followed by the bit 1, by the smallest number \<open>k\<close> of zero
  bits with \<open>l + 1 + k = 896\<close> modulo 1024, and by \<open>l\<close> as a number of 128 bits. For a
  message of whole bytes that is the byte \<open>0x80\<close>, \<open>(k - 7) / 8\<close> zero bytes and sixteen
  bytes, the most significant first.
\<close>

definition zero_bits :: "nat \<Rightarrow> nat" where
  "zero_bits l = (1024 + 896 - (l + 1) mod 1024) mod 1024"

definition length_block :: "nat \<Rightarrow> byte list" where
  "length_block l = map (\<lambda>i. of_nat (l div 256 ^ (15 - i))) [0..<16]"

definition pad_message :: "byte list \<Rightarrow> byte list" where
  "pad_message M =
     (let l = 8 * length M
      in M @ [0x80] @ replicate ((zero_bits l - 7) div 8) 0 @ length_block l)"

text \<open>The blocks of 1024 bits, and the sixteen words of 64 bits of a block.\<close>

definition message_blocks :: "byte list \<Rightarrow> byte list list" where
  "message_blocks p = map (\<lambda>i. take 128 (drop (128 * i) p)) [0..<length p div 128]"

definition block_word :: "byte list \<Rightarrow> nat \<Rightarrow> u64" where
  "block_word blk t =
     word_of_nat (foldl (\<lambda>n b. 256 * n + unat b) 0 (take 8 (drop (8 * t) blk)))"

subsection \<open>Section 6.4: the hash computation\<close>

text \<open>The message schedule \<open>W\<^sub>t\<close> of a block.\<close>

fun W :: "byte list \<Rightarrow> nat \<Rightarrow> u64" where
  "W blk t =
     (if t < 16 then block_word blk t
      else sigma1 (W blk (t - 2)) + W blk (t - 7) + sigma0 (W blk (t - 15)) + W blk (t - 16))"

declare W.simps [simp del]

text \<open>The working variables \<open>a, \<dots>, h\<close> after \<open>t\<close> rounds.\<close>

fun working :: "byte list \<Rightarrow> regs \<Rightarrow> nat \<Rightarrow> regs" where
  "working blk H 0 = H"
| "working blk H (Suc t) =
     (case working blk H t of (a, b, c, d, e, f, g, h) \<Rightarrow>
        (let T1 = h + Sigma1 e + Ch e f g + sha512_K ! t + W blk t;
             T2 = Sigma0 a + Maj a b c
         in (T1 + T2, a, b, c, d + T1, e, f, g)))"

definition hash_block :: "regs \<Rightarrow> byte list \<Rightarrow> regs" where
  "hash_block H blk =
     (case H of (h0, h1, h2, h3, h4, h5, h6, h7) \<Rightarrow>
      case working blk H 80 of (a, b, c, d, e, f, g, h) \<Rightarrow>
        (a + h0, b + h1, c + h2, d + h3, e + h4, f + h5, g + h6, h + h7))"

text \<open>A word of 64 bits as eight bytes, the most significant first.\<close>

definition word_bytes :: "u64 \<Rightarrow> byte list" where
  "word_bytes w = map (\<lambda>i. of_nat (unat w div 256 ^ (7 - i))) [0..<8]"

definition SHA512 :: "byte list \<Rightarrow> byte list" where
  "SHA512 M =
     (case foldl hash_block sha512_init (message_blocks (pad_message M)) of
        (h0, h1, h2, h3, h4, h5, h6, h7) \<Rightarrow> concat (map word_bytes [h0, h1, h2, h3, h4, h5, h6, h7]))"

subsection \<open>RFC 2104: HMAC\<close>

text \<open>
  For a hash function \<open>H\<close> with blocks of \<open>B\<close> bytes: a key longer than \<open>B\<close> bytes is
  replaced by its hash; zeros are appended to the key to make \<open>B\<close> bytes; \<open>ipad\<close> is
  the byte \<open>0x36\<close> and \<open>opad\<close> the byte \<open>0x5C\<close>, each repeated \<open>B\<close> times; the result
  is \<open>H(K XOR opad, H(K XOR ipad, text))\<close>.
\<close>

definition HMAC :: "(byte list \<Rightarrow> byte list) \<Rightarrow> nat \<Rightarrow> byte list \<Rightarrow> byte list \<Rightarrow> byte list" where
  "HMAC H B K text =
     (let K' = (if length K > B then H K else K);
          K0 = K' @ replicate (B - length K') 0;
          ipad = replicate B 0x36;
          opad = replicate B 0x5C
      in H (map2 (XOR) K0 opad @ H (map2 (XOR) K0 ipad @ text)))"

definition HMAC_SHA512 :: "byte list \<Rightarrow> byte list \<Rightarrow> byte list" where
  "HMAC_SHA512 = HMAC SHA512 128"

subsection \<open>Lowercase hexadecimal text\<close>

definition hex_digit :: "nat \<Rightarrow> char" where
  "hex_digit n =
     (if n < 10 then char_of (of_char CHR ''0'' + n) else char_of (of_char CHR ''a'' + (n - 10)))"

definition lower_hex :: "byte list \<Rightarrow> string" where
  "lower_hex bs = concat (map (\<lambda>b. [hex_digit (unat b div 16), hex_digit (unat b mod 16)]) bs)"

section \<open>net/url: form values and their encoding\<close>

definition upperhex :: string where
  "upperhex = ''0123456789ABCDEF''"

text \<open>A byte between two bytes, as in \<open>'a' <= c && c <= 'z'\<close>.\<close>

definition between :: "char \<Rightarrow> char \<Rightarrow> char \<Rightarrow> bool" where
  "between lo hi c \<longleftrightarrow> lo \<le> c \<and> c \<le> hi"

text \<open>
  \<open>shouldEscape(c, encodeQueryComponent)\<close>: letters, digits and the marks
  \<open>- _ . ~\<close> are kept, every other byte is escaped.
\<close>

definition shouldEscape :: "char \<Rightarrow> bool" where
  "shouldEscape c =
     (if between CHR ''a'' CHR ''z'' c \<or> between CHR ''A'' CHR ''Z'' c \<or> between CHR ''0'' CHR ''9'' c
      then False
      else if c = CHR ''-'' \<or> c = CHR ''_'' \<or> c = CHR ''.'' \<or> c = CHR ''~'' then False
      else True)"

text \<open>\<open>url.QueryEscape\<close>: a space becomes \<open>+\<close>, another escaped byte \<open>%XX\<close>.\<close>

definition escape_byte :: "char \<Rightarrow> string" where
  "escape_byte c =
     (if shouldEscape c then
        (if c = CHR '' '' then ''+''
         else [CHR ''%'', upperhex ! (of_char c div 16), upperhex ! (of_char c mod 16)])
      else [c])"

definition QueryEscape :: "string \<Rightarrow> string" where
  "QueryEscape s = concat (map escape_byte s)"

text \<open>
  \<open>url.Values\<close> is a map from a key to the list of its values. The model is an
  association list with one entry for each key; the order of the entries has no meaning,
  as \<open>Encode\<close> sorts the keys.
\<close>

type_synonym Values = "(string \<times> string list) list"

definition Values_Get :: "Values \<Rightarrow> string \<Rightarrow> string list" where
  "Values_Get v key = (case map_of v key of None \<Rightarrow> [] | Some vs \<Rightarrow> vs)"

text \<open>\<open>v.Add(key, value)\<close>: \<open>v[key] = append(v[key], value)\<close>.\<close>

definition Values_Add :: "Values \<Rightarrow> string \<Rightarrow> string \<Rightarrow> Values" where
  "Values_Add v key val =
     (case map_of v key of
        None \<Rightarrow> v @ [(key, [val])]
      | Some vs \<Rightarrow> map (\<lambda>(k, xs). if k = key then (k, xs @ [val]) else (k, xs)) v)"

text \<open>
  \<open>v.Encode()\<close>: the keys are sorted; for each key and each of its values the buffer
  receives \<open>&\<close> unless it is empty, the escaped key, \<open>=\<close> and the escaped value.
\<close>

fun Encode_values :: "string \<Rightarrow> string list \<Rightarrow> string \<Rightarrow> string" where
  "Encode_values keyEscaped [] buf = buf"
| "Encode_values keyEscaped (x # vs) buf =
     Encode_values keyEscaped vs
       ((if buf \<noteq> [] then buf @ ''&'' else buf) @ keyEscaped @ ''='' @ QueryEscape x)"

fun Encode_keys :: "Values \<Rightarrow> string list \<Rightarrow> string \<Rightarrow> string" where
  "Encode_keys v [] buf = buf"
| "Encode_keys v (k # keys) buf =
     Encode_keys v keys (Encode_values (QueryEscape k) (Values_Get v k) buf)"

definition Values_Encode :: "Values \<Rightarrow> string" where
  "Values_Encode v = (if v = [] then [] else Encode_keys v (sort (map fst v)) [])"

section \<open>Authenticated calls\<close>

datatype CallArg = CallArg (name: string) (value': string)

record ApiCredential =
  Key :: string
  Secret :: string

definition apiTrade :: string where
  "apiTrade = ''https://yobit.net/tapi/''"

text \<open>
  An HTTP request as \<open>callPrivate\<close> builds it. \<open>http.NewRequest\<close> fails on a method
  that is not a token and on a URL that does not parse; \<open>POST\<close> and \<open>apiTrade\<close> are
  constants on which it succeeds, so the request is a value.
\<close>

record Request =
  req_method :: string
  req_url :: string
  req_header :: "(string \<times> string) list"
  req_body :: string

text \<open>
  \<open>textproto.CanonicalMIMEHeaderKey\<close>: a name with a byte that is no token character
  (the table \<open>isTokenTable\<close> and the apostrophe) is kept; in another name the first letter and every letter behind a hyphen become upper
  case, every other letter lower case.
\<close>

definition isTokenTable :: string where
  "isTokenTable =
     ''!#$%&*+-.0123456789ABCDEFGHIJKLMNOPQRSTUVWXYZ^_`abcdefghijklmnopqrstuvwxyz|~''"

definition validHeaderFieldByte :: "char \<Rightarrow> bool" where
  "validHeaderFieldByte c \<longleftrightarrow> c \<in> set isTokenTable \<or> c = CHR 0x27"

fun canonicalMIMEHeaderKey :: "bool \<Rightarrow> string \<Rightarrow> string" where
  "canonicalMIMEHeaderKey upper [] = []"
| "canonicalMIMEHeaderKey upper (c # cs) =
     (let c' = (if upper \<and> between CHR ''a'' CHR ''z'' c then char_of (of_char c - (32 :: nat))
                else if \<not> upper \<and> between CHR ''A'' CHR ''Z'' c then char_of (of_char c + (32 :: nat))
                else c)
      in c' # canonicalMIMEHeaderKey (c' = CHR ''-'') cs)"

definition CanonicalMIMEHeaderKey :: "string \<Rightarrow> string" where
  "CanonicalMIMEHeaderKey s =
     (if list_all validHeaderFieldByte s then canonicalMIMEHeaderKey True s else s)"

text \<open>
  \<open>Header.Add\<close> appends a value under the canonical form of a name, and
  \<open>Header.Values\<close> returns the values under the canonical form of a name.
\<close>

definition Header_Add :: "Request \<Rightarrow> string \<Rightarrow> string \<Rightarrow> Request" where
  "Header_Add req key val =
     req\<lparr>req_header := req_header req @ [(CanonicalMIMEHeaderKey key, val)]\<rparr>"

definition Header_values :: "Request \<Rightarrow> string \<Rightarrow> string list" where
  "Header_values req key =
     map snd (filter (\<lambda>(k, v). k = CanonicalMIMEHeaderKey key) (req_header req))"

text \<open>The form of a call: \<open>method\<close>, \<open>nonce\<close>, and one \<open>Add\<close> for each argument.\<close>

definition private_form :: "string \<Rightarrow> u64 \<Rightarrow> CallArg list \<Rightarrow> Values" where
  "private_form method nonce args =
     foldl (\<lambda>form arg. Values_Add form (name arg) (value' arg))
       [(''method'', [method]), (''nonce'', [FormatUint nonce])] args"

text \<open>The steps of \<open>callPrivate\<close> between taking the nonce and sending the request.\<close>

definition private_request :: "ApiCredential \<Rightarrow> string \<Rightarrow> CallArg list \<Rightarrow> u64 \<Rightarrow> Request" where
  "private_request credential method args nonce =
     (let encode = Values_Encode (private_form method nonce args);
          signature = signHmacSha512 (bytes_of (Secret credential)) (bytes_of encode);
          req = \<lparr>req_method = ''POST'', req_url = apiTrade, req_header = [], req_body = encode\<rparr>;
          req = Header_Add req ''Content-type'' ''application/x-www-form-urlencoded'';
          req = Header_Add req ''Key'' (Key credential);
          req = Header_Add req ''Sign'' signature
      in req)"

text \<open>
  \<open>callPrivate\<close>. The HTTP client, the network and the exchange are the parameter
  \<open>query\<close>: it returns the bytes of the response, or the failure with which
  \<open>fatal\<close> ends the process.
\<close>

definition callPrivate ::
  "(Request \<Rightarrow> error + string) \<Rightarrow> ApiCredential \<Rightarrow> storage \<Rightarrow> string \<Rightarrow> CallArg list
     \<Rightarrow> error + (string \<times> storage)" where
  "callPrivate query credential s method args =
     (case GetAndIncrementNonce s of
        Inl e \<Rightarrow> Inl e
      | Inr (nonce, s') \<Rightarrow>
          (case query (private_request credential method args nonce) of
             Inl e \<Rightarrow> Inl e
           | Inr response \<Rightarrow> Inr (response, s')))"

text \<open>
  The form body as the specification describes it: the parameters \<open>method\<close>,
  \<open>nonce\<close> and the supplied ones, sorted by name (parameters of one name stay in the
  order given), each written \<open>name=value\<close> with both parts escaped, joined by \<open>&\<close>.
\<close>

fun join :: "string \<Rightarrow> string list \<Rightarrow> string" where
  "join sep [] = []"
| "join sep [x] = x"
| "join sep (x # y # ys) = x @ sep @ join sep (y # ys)"

definition form_pairs :: "string \<Rightarrow> u64 \<Rightarrow> CallArg list \<Rightarrow> (string \<times> string) list" where
  "form_pairs method nonce args =
     (''method'', method) # (''nonce'', FormatUint nonce) # map (\<lambda>arg. (name arg, value' arg)) args"

definition encode_pair :: "string \<times> string \<Rightarrow> string" where
  "encode_pair p = QueryEscape (fst p) @ ''='' @ QueryEscape (snd p)"

definition canonical_body :: "(string \<times> string) list \<Rightarrow> string" where
  "canonical_body ps = join ''&'' (map encode_pair (sort_key fst ps))"

text \<open>
  What the loops of \<open>Encode\<close> do to the buffer when they write the segments
  \<open>segs\<close>, and when a form \<open>v\<close> holds the parameters \<open>ps\<close>.
\<close>

definition write_segments :: "string \<Rightarrow> string list \<Rightarrow> string" where
  "write_segments buf segs =
     (if segs = [] then buf else (if buf \<noteq> [] then buf @ ''&'' else []) @ join ''&'' segs)"

definition key_pairs :: "Values \<Rightarrow> string \<Rightarrow> (string \<times> string) list" where
  "key_pairs v k = map (Pair k) (Values_Get v k)"

definition holds_pairs :: "Values \<Rightarrow> (string \<times> string) list \<Rightarrow> bool" where
  "holds_pairs v ps \<longleftrightarrow>
     distinct (map fst v) \<and> set (map fst v) = fst ` set ps \<and>
     (\<forall>k. Values_Get v k = map snd (filter (\<lambda>p. fst p = k) ps))"

section \<open>Properties of the nonce store\<close>

lemma digits_nth:
  assumes "d < 10"
  shows "CHR ''0'' \<le> digits ! d \<and> digits ! d \<le> CHR ''9'' \<and>
         of_char (digits ! d) - of_char CHR ''0'' = d"
proof -
  from assms have "d \<in> {0, 1, 2, 3, 4, 5, 6, 7, 8, 9}" by auto
  then show ?thesis
    by (auto simp: digits_def less_eq_char_def)
qed

lemma formatBits_not_Nil: "formatBits u \<noteq> []"
  by (subst formatBits.simps) simp

lemma ParseUint_loop_snoc:
  "ParseUint_loop (xs @ [c]) n =
     (case ParseUint_loop xs n of Inl e \<Rightarrow> Inl e | Inr m \<Rightarrow> ParseUint_loop [c] m)"
  by (induction xs arbitrary: n) (simp_all add: Let_def)

lemma ParseUint_loop_digit:
  assumes "d < 10" "n * 10 + d < 2 ^ 64"
  shows "ParseUint_loop [digits ! d] n = Inr (n * 10 + d)"
proof -
  from assms have "n < cutoff" by (simp add: cutoff_def maxUint64_def)
  moreover from assms have "n * 10 < 2 ^ 64" by simp
  ultimately show ?thesis
    using assms digits_nth [OF assms(1)] by (simp add: Let_def maxUint64_def)
qed

lemma ParseUint_loop_formatBits:
  "u < 2 ^ 64 \<Longrightarrow> ParseUint_loop (formatBits u) 0 = Inr u"
proof (induction u rule: formatBits.induct)
  case (1 u)
  show ?case
  proof (cases "u < 10")
    case True
    then have "ParseUint_loop [digits ! u] 0 = Inr (0 * 10 + u)"
      by (intro ParseUint_loop_digit) simp_all
    with True show ?thesis by (subst formatBits.simps) simp
  next
    case False
    have "u div 10 < 2 ^ 64" using "1.prems" by simp
    with "1.IH" False have IH: "ParseUint_loop (formatBits (u div 10)) 0 = Inr (u div 10)" by simp
    have "ParseUint_loop [digits ! (u mod 10)] (u div 10) = Inr (u div 10 * 10 + u mod 10)"
      using "1.prems" by (intro ParseUint_loop_digit) simp_all
    with False IH show ?thesis
      by (subst formatBits.simps) (simp add: ParseUint_loop_snoc)
  qed
qed

lemma ParseUint_FormatUint: "ParseUint (FormatUint v) = Inr v"
proof -
  have "unat v < 2 ^ 64" using unsigned_less [of v] by simp
  then show ?thesis
    by (simp add: ParseUint_def FormatUint_def formatBits_not_Nil ParseUint_loop_formatBits)
qed

lemma ParseUint_1: "ParseUint ''1'' = Inr 1"
proof -
  have "ParseUint (FormatUint 1) = Inr 1" by (rule ParseUint_FormatUint)
  moreover have "FormatUint 1 = ''1''" by (simp add: FormatUint_def formatBits.simps digits_def)
  ultimately show ?thesis by simp
qed

lemma FormatUint_small:
  "FormatUint 0 = ''0''" "FormatUint 2 = ''2''" "FormatUint 3 = ''3''"
  by (simp_all add: FormatUint_def formatBits.simps digits_def)

lemma readNonce_existing:
  assumes "nonce_file s = Some d" "can_read s"
  shows "readNonce s = (case ParseUint d of Inl e \<Rightarrow> Inl e | Inr v \<Rightarrow> Inr (v, s))"
  using assms by (simp add: readNonce_def CreateNonceFileIfNotExists_def ReadFile_def)

lemma readNonce_absent:
  assumes "nonce_file s = None" "can_create s" "can_write s" "can_read s"
  shows "readNonce s = Inr (1, s\<lparr>nonce_file := Some ''1''\<rparr>)"
  using assms
  by (simp add: readNonce_def CreateNonceFileIfNotExists_def WriteNonce_def ReadFile_def ParseUint_1)

lemma readNonce_fails_iff:
  "isl (readNonce s) \<longleftrightarrow>
     (case nonce_file s of
        Some d \<Rightarrow> \<not> can_read s \<or> isl (ParseUint d)
      | None \<Rightarrow> \<not> can_create s \<or> \<not> can_write s \<or> \<not> can_read s)"
  by (auto simp: readNonce_def CreateNonceFileIfNotExists_def WriteNonce_def ReadFile_def
      ParseUint_1 split: option.splits sum.splits)

lemma readNonce_Inr:
  assumes "readNonce s = Inr (v, s1)"
  shows "can_read s1 = can_read s \<and> can_write s1 = can_write s \<and> can_create s1 = can_create s
    \<and> (\<exists>d. nonce_file s1 = Some d \<and> ParseUint d = Inr v)
    \<and> (nonce_file s \<noteq> None \<longrightarrow> s1 = s) \<and> can_read s"
  using assms
  by (auto simp: readNonce_def CreateNonceFileIfNotExists_def WriteNonce_def ReadFile_def
      split: option.splits sum.splits if_splits)

lemma GetAndIncrementNonce_eq:
  assumes "readNonce s = Inr (v, s1)" "can_write s"
  shows "GetAndIncrementNonce s = Inr (v + 1, s1\<lparr>nonce_file := Some (FormatUint (v + 1))\<rparr>)"
  using assms readNonce_Inr [OF assms(1)]
  by (simp add: GetAndIncrementNonce_def incrementNonce_def WriteNonce_def Let_def)

lemma GetAndIncrementNonce_existing:
  assumes "nonce_file s = Some d" "ParseUint d = Inr v" "can_read s" "can_write s"
  shows "GetAndIncrementNonce s = Inr (v + 1, s\<lparr>nonce_file := Some (FormatUint (v + 1))\<rparr>)"
proof -
  from assms have "readNonce s = Inr (v, s)" by (simp add: readNonce_existing)
  then show ?thesis using assms(4) by (rule GetAndIncrementNonce_eq)
qed

lemma GetAndIncrementNonce_absent:
  assumes "nonce_file s = None" "can_create s" "can_read s" "can_write s"
  shows "GetAndIncrementNonce s = Inr (2, s\<lparr>nonce_file := Some ''2''\<rparr>)"
proof -
  from assms have "readNonce s = Inr (1, s\<lparr>nonce_file := Some ''1''\<rparr>)"
    by (simp add: readNonce_absent)
  from GetAndIncrementNonce_eq [OF this assms(4)] show ?thesis
    by (simp add: FormatUint_small)
qed

lemma GetAndIncrementNonce_Inr:
  assumes "GetAndIncrementNonce s = Inr (n, s')"
  shows "\<exists>v s1. readNonce s = Inr (v, s1) \<and> n = v + 1 \<and> can_write s
           \<and> s' = s1\<lparr>nonce_file := Some (FormatUint n)\<rparr>"
  using assms
  by (auto simp: GetAndIncrementNonce_def incrementNonce_def WriteNonce_def Let_def
      dest!: readNonce_Inr split: sum.splits if_splits)

lemma GetAndIncrementNonce_readNonce_after:
  assumes "GetAndIncrementNonce s = Inr (n, s')"
  shows "readNonce s' = Inr (n, s')"
proof -
  from GetAndIncrementNonce_Inr [OF assms] obtain v s1 where
    r: "readNonce s = Inr (v, s1)" and s': "s' = s1\<lparr>nonce_file := Some (FormatUint n)\<rparr>"
    by blast
  from readNonce_Inr [OF r] have "can_read s1" by simp
  with s' show ?thesis by (simp add: readNonce_existing ParseUint_FormatUint)
qed

lemma GetAndIncrementNonce_abort:
  "readNonce s = Inl e \<Longrightarrow> GetAndIncrementNonce s = Inl e"
  "readNonce s = Inr (v, s1) \<Longrightarrow> WriteNonce s1 (FormatUint (v + 1)) = Inl e
     \<Longrightarrow> GetAndIncrementNonce s = Inl e"
  by (simp_all add: GetAndIncrementNonce_def incrementNonce_def Let_def)

text \<open>The nonces of a run count up from the stored value.\<close>

lemma run_nonces:
  assumes "run s evs = Inr (ns, s')" "readNonce s = Inr (v, s1)"
  shows "ns = map (\<lambda>i. v + of_nat (Suc i)) [0..<length ns]"
  using assms
proof (induction s evs arbitrary: ns v s1 rule: run.induct)
  case (1 s)
  then show ?case by simp
next
  case (2 s evs)
  then show ?case by simp
next
  case (3 s evs)
  from "3.prems"(1) obtain n s2 ms where
    g: "GetAndIncrementNonce s = Inr (n, s2)" and r: "run s2 evs = Inr (ms, s')"
    and ns: "ns = n # ms"
    by (auto split: sum.splits prod.splits)
  from GetAndIncrementNonce_Inr [OF g] "3.prems"(2) have n: "n = v + 1" by auto
  have "readNonce s2 = Inr (n, s2)" using g by (rule GetAndIncrementNonce_readNonce_after)
  with "3.IH" g r have ms: "ms = map (\<lambda>i. n + of_nat (Suc i)) [0..<length ms]" by simp
  have "map (\<lambda>i. v + of_nat (Suc i)) [0..<Suc (length ms)]
      = (v + 1) # map (\<lambda>i. v + 1 + of_nat (Suc i)) [0..<length ms]"
    by (simp add: upt_conv_Cons map_Suc_upt [symmetric] add.assoc add.commute del: upt_Suc)
  with ms n ns show ?case by simp
qed

lemma u64_count_up_sorted:
  fixes v :: u64
  assumes "unat v + k < 2 ^ 64"
  shows "sorted_wrt (<) (map (\<lambda>i. v + of_nat (Suc i)) [0..<k]) \<and>
         (\<forall>n \<in> set (map (\<lambda>i. v + of_nat (Suc i)) [0..<k]). v < n)"
proof -
  have u: "unat (v + of_nat (Suc i)) = unat v + Suc i" if "i < k" for i
  proof -
    have "unat v + Suc i < 2 ^ 64" using assms that by simp
    then show ?thesis
      by (simp add: unat_word_ariths unat_of_nat take_bit_nat_eq_self del: of_nat_Suc)
  qed
  have "sorted_wrt (<) (map (\<lambda>i. v + of_nat (Suc i)) [0..<k])"
    unfolding sorted_wrt_map
    by (rule sorted_wrt_mono_rel [of _ "(<)"]) (auto simp: word_less_nat_alt u simp del: of_nat_Suc)
  moreover have "\<forall>n \<in> set (map (\<lambda>i. v + of_nat (Suc i)) [0..<k]). v < n"
    by (auto simp: word_less_nat_alt u simp del: of_nat_Suc)
  ultimately show ?thesis by simp
qed

lemma run_succeeds:
  assumes "readNonce s = Inr (v, s1)" "can_write s"
  shows "\<exists>ns s'. run s evs = Inr (ns, s') \<and> length ns = length (filter (\<lambda>e. e = Next) evs)"
  using assms
proof (induction s evs arbitrary: v s1 rule: run.induct)
  case (1 s)
  then show ?case by simp
next
  case (2 s evs)
  then show ?case by simp
next
  case (3 s evs)
  let ?s2 = "s1\<lparr>nonce_file := Some (FormatUint (v + 1))\<rparr>"
  have g: "GetAndIncrementNonce s = Inr (v + 1, ?s2)"
    using "3.prems" by (rule GetAndIncrementNonce_eq)
  have r: "readNonce ?s2 = Inr (v + 1, ?s2)" using g by (rule GetAndIncrementNonce_readNonce_after)
  have w: "can_write ?s2" using readNonce_Inr [OF "3.prems"(1)] "3.prems"(2) by simp
  from "3.IH" [OF g refl r w] obtain ns s' where
    "run ?s2 evs = Inr (ns, s')" "length ns = length (filter (\<lambda>e. e = Next) evs)" by blast
  with g show ?case by simp
qed

lemma ParseUint_small: "ParseUint ''41'' = Inr 41" "ParseUint ''7'' = Inr 7" "ParseUint ''5'' = Inr 5"
  "ParseUint ''2'' = Inr 2" "ParseUint ''4x'' = Inl SyntaxError"
  by (simp_all add: ParseUint_def cutoff_def maxUint64_def)

lemma FormatUint_small2: "FormatUint 42 = ''42''" "FormatUint 6 = ''6''" "FormatUint 8 = ''8''" "FormatUint 9 = ''9''"
  by (simp_all add: FormatUint_def formatBits.simps digits_def)

lemma FormatUint_max: "FormatUint 18446744073709551615 = ''18446744073709551615''"
  by (simp add: FormatUint_def formatBits.simps digits_def)

subsection \<open>One call\<close>

text \<open>
  Claim C1, as amended. When the counter file holds a valid decimal \<open>uint64\<close> \<open>v\<close>
  and can be read and written, one call of \<open>GetAndIncrementNonce\<close> returns \<open>v + 1\<close>
  (modulo \<open>2^64\<close>) and leaves the decimal text of \<open>v + 1\<close> in the file: the value
  returned is the value persisted, not the value read. When there is no file and it can
  be created, the store writes \<open>1\<close> first, so the first call returns \<open>2\<close> and the
  second returns \<open>3\<close>.
\<close>

theorem GetAndIncrementNonce_returns_successor:
  "(nonce_file s = Some d \<and> ParseUint d = Inr v \<and> can_read s \<and> can_write s \<longrightarrow>
      GetAndIncrementNonce s = Inr (v + 1, s\<lparr>nonce_file := Some (FormatUint (v + 1))\<rparr>)
      \<and> ParseUint (FormatUint (v + 1)) = Inr (v + 1))
   \<and> GetAndIncrementNonce fresh_storage = Inr (2, stored ''2'')
   \<and> GetAndIncrementNonce (stored ''2'') = Inr (3, stored ''3'')"
proof (intro conjI impI)
  assume a: "nonce_file s = Some d \<and> ParseUint d = Inr v \<and> can_read s \<and> can_write s"
  then have "nonce_file s = Some d" "ParseUint d = Inr v" "can_read s" "can_write s"
    by simp_all
  then show "GetAndIncrementNonce s = Inr (v + 1, s\<lparr>nonce_file := Some (FormatUint (v + 1))\<rparr>)"
    by (rule GetAndIncrementNonce_existing)
  show "ParseUint (FormatUint (v + 1)) = Inr (v + 1)" by (rule ParseUint_FormatUint)
next
  show "GetAndIncrementNonce fresh_storage = Inr (2, stored ''2'')"
    using GetAndIncrementNonce_absent [of fresh_storage]
    by (simp add: fresh_storage_def stored_def)
next
  show "GetAndIncrementNonce (stored ''2'') = Inr (3, stored ''3'')"
    using GetAndIncrementNonce_existing [of "stored ''2''" "''2''" 2]
    by (simp add: stored_def ParseUint_small FormatUint_small)
qed

text \<open>The hypotheses of C1 hold for a file that contains \<open>41\<close>; the call returns \<open>42\<close>.\<close>

theorem GetAndIncrementNonce_returns_successor_witness:
  "nonce_file (stored ''41'') = Some ''41'' \<and> ParseUint ''41'' = Inr 41
   \<and> can_read (stored ''41'') \<and> can_write (stored ''41'')
   \<and> GetAndIncrementNonce (stored ''41'') = Inr (42, stored ''42'')"
  using GetAndIncrementNonce_returns_successor [of "stored ''41''" "''41''" 41]
  by (simp add: stored_def ParseUint_small FormatUint_small2)

text \<open>
  Claim C1 as stated fails: with no file at startup the first call returns \<open>2\<close>, not
  \<open>1\<close>, and with \<open>5\<close> in the file the call returns \<open>6\<close>, not the stored \<open>5\<close>.
\<close>

theorem GetAndIncrementNonce_returns_stored_counterexample:
  "GetAndIncrementNonce fresh_storage = Inr (2, stored ''2'') \<and> (2 :: u64) \<noteq> 1
   \<and> GetAndIncrementNonce (stored ''5'') = Inr (6, stored ''6'') \<and> (6 :: u64) \<noteq> 5"
proof -
  have "GetAndIncrementNonce fresh_storage = Inr (2, stored ''2'')"
    using GetAndIncrementNonce_absent [of fresh_storage]
    by (simp add: fresh_storage_def stored_def)
  moreover have "GetAndIncrementNonce (stored ''5'') = Inr (6, stored ''6'')"
    using GetAndIncrementNonce_existing [of "stored ''5''" "''5''" 5]
    by (simp add: stored_def ParseUint_small FormatUint_small2)
  ultimately show ?thesis by simp
qed

subsection \<open>Runs of calls and restarts\<close>

text \<open>
  Claim C2, as amended. Let \<open>v\<close> be the value the store reads at the start of a run
  (the stored one, or the initial \<open>1\<close>), let the file be writable, and let the run make
  so few calls that \<open>v\<close> plus their number stays below \<open>2^64\<close>. Then every call of
  the run succeeds, and the nonces returned, in the order of the calls and across
  restarts, are strictly increasing and all greater than \<open>v\<close>.
\<close>

theorem nonces_strictly_increase_below_wrap:
  assumes "readNonce s = Inr (v, s1)" and "can_write s"
    and "unat v + length (filter (\<lambda>e. e = Next) evs) < 2 ^ 64"
  shows "\<exists>ns s'. run s evs = Inr (ns, s') \<and> length ns = length (filter (\<lambda>e. e = Next) evs)
           \<and> sorted_wrt (<) ns \<and> (\<forall>n \<in> set ns. v < n)"
proof -
  from run_succeeds [OF assms(1,2)] obtain ns s' where
    r: "run s evs = Inr (ns, s')" and l: "length ns = length (filter (\<lambda>e. e = Next) evs)"
    by blast
  from run_nonces [OF r assms(1)] have ns: "ns = map (\<lambda>i. v + of_nat (Suc i)) [0..<length ns]" .
  from assms(3) l have "unat v + length ns < 2 ^ 64" by simp
  from u64_count_up_sorted [OF this]
  have "sorted_wrt (<) ns \<and> (\<forall>n \<in> set ns. v < n)" unfolding ns [symmetric] .
  with r l show ?thesis by blast
qed

text \<open>The hypotheses of C2 hold for a file that contains \<open>7\<close> and two calls around a restart.\<close>

theorem nonces_strictly_increase_below_wrap_witness:
  "readNonce (stored ''7'') = Inr (7, stored ''7'') \<and> can_write (stored ''7'')
   \<and> unat (7 :: u64) + length (filter (\<lambda>e. e = Next) [Next, Restart, Next]) < 2 ^ 64
   \<and> (\<exists>ns s'. run (stored ''7'') [Next, Restart, Next] = Inr (ns, s') \<and> length ns = 2
         \<and> sorted_wrt (<) ns \<and> (\<forall>n \<in> set ns. 7 < n))"
proof -
  have h1: "readNonce (stored ''7'') = Inr (7, stored ''7'')"
    by (simp add: readNonce_existing stored_def ParseUint_small)
  have h2: "can_write (stored ''7'')" by (simp add: stored_def)
  have h3: "unat (7 :: u64) + length (filter (\<lambda>e. e = Next) [Next, Restart, Next]) < 2 ^ 64"
    by simp
  from nonces_strictly_increase_below_wrap [OF h1 h2 h3] h1 h2 h3 show ?thesis
    by (simp add: numeral_2_eq_2)
qed

text \<open>A file written by the store itself.\<close>

lemma GetAndIncrementNonce_stored:
  "GetAndIncrementNonce (stored (FormatUint v)) = Inr (v + 1, stored (FormatUint (v + 1)))"
  using GetAndIncrementNonce_existing [of "stored (FormatUint v)" "FormatUint v" v]
  by (simp add: stored_def ParseUint_FormatUint)

text \<open>
  Claim C2 as stated fails at the largest \<open>uint64\<close>: from a file that holds
  \<open>2^64 - 2\<close>, a call, a restart and another call return \<open>2^64 - 1\<close> and then \<open>0\<close>.
\<close>

theorem nonces_strictly_increase_counterexample:
  "run (stored (FormatUint 18446744073709551614)) [Next, Restart, Next]
     = Inr ([18446744073709551615, 0], stored ''0'')
   \<and> \<not> (18446744073709551615 :: u64) < 0"
proof -
  have y: "(18446744073709551614 :: u64) + 1 = 18446744073709551615" by simp
  have z: "(18446744073709551615 :: u64) + 1 = 0" by simp
  note g1 = GetAndIncrementNonce_stored [of 18446744073709551614, unfolded y]
  note g2 = GetAndIncrementNonce_stored [of 18446744073709551615, unfolded z]
  from g1 g2 show ?thesis by (simp add: FormatUint_small)
qed

subsection \<open>Failures\<close>

text \<open>
  Claim C9, as amended. \<open>readNonce\<close> fails exactly when the counter file exists and
  cannot be read or does not hold a valid decimal \<open>uint64\<close>, or when the file does not
  exist and cannot be created, written with the initial \<open>1\<close> or read. \<open>WriteNonce\<close>
  fails exactly when the file cannot be written. A failure of the read or of the write
  ends \<open>GetAndIncrementNonce\<close> with that error. After a successful call the file holds
  the decimal text of the nonce returned, which parses back to it.
\<close>

theorem nonce_store_failures:
  "(isl (readNonce s) \<longleftrightarrow>
      (case nonce_file s of
         Some d \<Rightarrow> \<not> can_read s \<or> isl (ParseUint d)
       | None \<Rightarrow> \<not> can_create s \<or> \<not> can_write s \<or> \<not> can_read s))
   \<and> (isl (WriteNonce s data) \<longleftrightarrow> \<not> can_write s)
   \<and> (readNonce s = Inl e \<longrightarrow> GetAndIncrementNonce s = Inl e)
   \<and> (readNonce s = Inr (v, s1) \<and> WriteNonce s1 (FormatUint (v + 1)) = Inl e \<longrightarrow>
        GetAndIncrementNonce s = Inl e)
   \<and> (GetAndIncrementNonce s = Inr (n, s') \<longrightarrow>
        nonce_file s' = Some (FormatUint n) \<and> ParseUint (FormatUint n) = Inr n)"
proof (intro conjI impI)
  show "isl (readNonce s) \<longleftrightarrow>
      (case nonce_file s of
         Some d \<Rightarrow> \<not> can_read s \<or> isl (ParseUint d)
       | None \<Rightarrow> \<not> can_create s \<or> \<not> can_write s \<or> \<not> can_read s)"
    by (rule readNonce_fails_iff)
  show "isl (WriteNonce s data) \<longleftrightarrow> \<not> can_write s"
    by (simp add: WriteNonce_def)
  show "GetAndIncrementNonce s = Inl e" if "readNonce s = Inl e"
    using that by (rule GetAndIncrementNonce_abort)
  show "GetAndIncrementNonce s = Inl e"
    if "readNonce s = Inr (v, s1) \<and> WriteNonce s1 (FormatUint (v + 1)) = Inl e"
    using that by (simp add: GetAndIncrementNonce_abort)
  show "nonce_file s' = Some (FormatUint n)" if "GetAndIncrementNonce s = Inr (n, s')"
    using GetAndIncrementNonce_Inr [OF that] by auto
  show "ParseUint (FormatUint n) = Inr n" by (rule ParseUint_FormatUint)
qed

text \<open>
  Each hypothesis of C9 at a concrete storage: a corrupt file, a file that can be read
  but not written, a healthy file, and a missing file that can be created but not written
  (as on a full disk).
\<close>

theorem nonce_store_failures_witness:
  "isl (readNonce (stored ''4x'')) \<and> \<not> isl (readNonce (stored ''41''))
   \<and> isl (readNonce unwritable_storage)
   \<and> isl (WriteNonce unwritable_storage ''1'') \<and> \<not> isl (WriteNonce fresh_storage ''1'')
   \<and> readNonce (stored ''4x'') = Inl SyntaxError
   \<and> GetAndIncrementNonce (stored ''4x'') = Inl SyntaxError
   \<and> readNonce ((stored ''41'')\<lparr>can_write := False\<rparr>) = Inr (41, (stored ''41'')\<lparr>can_write := False\<rparr>)
   \<and> WriteNonce ((stored ''41'')\<lparr>can_write := False\<rparr>) (FormatUint (41 + 1)) = Inl WriteError
   \<and> GetAndIncrementNonce ((stored ''41'')\<lparr>can_write := False\<rparr>) = Inl WriteError
   \<and> GetAndIncrementNonce (stored ''41'') = Inr (42, stored ''42'')
   \<and> nonce_file (stored ''42'') = Some (FormatUint 42)"
proof -
  have r1: "readNonce (stored ''4x'') = Inl SyntaxError"
    by (simp add: readNonce_existing stored_def ParseUint_small)
  have r2: "readNonce ((stored ''41'')\<lparr>can_write := False\<rparr>)
      = Inr (41, (stored ''41'')\<lparr>can_write := False\<rparr>)"
    by (simp add: readNonce_existing stored_def ParseUint_small)
  have w2: "WriteNonce ((stored ''41'')\<lparr>can_write := False\<rparr>) (FormatUint (41 + 1)) = Inl WriteError"
    by (simp add: WriteNonce_def stored_def)
  have g3: "GetAndIncrementNonce (stored ''41'') = Inr (42, stored ''42'')"
    using GetAndIncrementNonce_existing [of "stored ''41''" "''41''" 41]
    by (simp add: stored_def ParseUint_small FormatUint_small2)
  note a = nonce_store_failures [of "stored ''4x''" "''1''" SyntaxError 0 "stored ''4x''" 0 "stored ''4x''"]
  note b = nonce_store_failures [of "(stored ''41'')\<lparr>can_write := False\<rparr>" "''1''" WriteError 41
      "(stored ''41'')\<lparr>can_write := False\<rparr>" 0 "stored ''4x''"]
  note c = nonce_store_failures [of "stored ''41''" "''1''" WriteError 41 "stored ''41''" 42 "stored ''42''"]
  note d = nonce_store_failures [of unwritable_storage "''1''" WriteError 41 "stored ''41''" 42 "stored ''42''"]
  note e = nonce_store_failures [of fresh_storage "''1''" WriteError 41 "stored ''41''" 42 "stored ''42''"]
  have "isl (readNonce (stored ''4x''))" using r1 by simp
  moreover have "\<not> isl (readNonce (stored ''41''))"
    using c by (simp add: stored_def ParseUint_small)
  moreover have "isl (readNonce unwritable_storage)"
    using d by (simp add: unwritable_storage_def)
  moreover have "isl (WriteNonce unwritable_storage ''1'')"
    using d by (simp add: unwritable_storage_def)
  moreover have "\<not> isl (WriteNonce fresh_storage ''1'')"
    using e by (simp add: fresh_storage_def)
  moreover have "GetAndIncrementNonce (stored ''4x'') = Inl SyntaxError"
    using a r1 by simp
  moreover have "GetAndIncrementNonce ((stored ''41'')\<lparr>can_write := False\<rparr>) = Inl WriteError"
    using b r2 w2 by simp
  moreover have "nonce_file (stored ''42'') = Some (FormatUint 42)"
    using c g3 by simp
  ultimately show ?thesis using r1 r2 w2 g3 by simp
qed

text \<open>
  Claim C9 as stated fails: two storages that are both readable and both without a
  counter file, so that they agree on readability and on contents; on the one that
  cannot be written the read fails, with the error of the write, and on the other it
  returns \<open>1\<close>.
\<close>

theorem read_fails_exactly_counterexample:
  "can_read unwritable_storage = can_read fresh_storage
   \<and> nonce_file unwritable_storage = nonce_file fresh_storage
   \<and> readNonce unwritable_storage = Inl WriteError
   \<and> readNonce fresh_storage = Inr (1, stored ''1'')"
  by (simp add: unwritable_storage_def fresh_storage_def stored_def readNonce_def
      CreateNonceFileIfNotExists_def WriteNonce_def ReadFile_def ParseUint_1)

subsection \<open>The largest counter value\<close>

text \<open>
  Claim C10. The increment is arithmetic modulo \<open>2^64\<close>. When the file holds
  \<open>2^64 - 1\<close>, the call returns \<open>0\<close> and writes \<open>0\<close>, and the nonce returned is below
  the stored one; for every smaller stored value the call returns exactly the stored
  value plus one, which is greater.
\<close>

theorem GetAndIncrementNonce_wraps:
  assumes "nonce_file s = Some d" "ParseUint d = Inr v" "can_read s" "can_write s"
  shows "(unat v = 2 ^ 64 - 1 \<longrightarrow>
            GetAndIncrementNonce s = Inr (0, s\<lparr>nonce_file := Some ''0''\<rparr>) \<and> 0 < v)
       \<and> (unat v < 2 ^ 64 - 1 \<longrightarrow>
            GetAndIncrementNonce s = Inr (v + 1, s\<lparr>nonce_file := Some (FormatUint (v + 1))\<rparr>)
            \<and> unat (v + 1) = unat v + 1 \<and> v < v + 1)"
proof (intro conjI impI)
  note g = GetAndIncrementNonce_existing [OF assms]
  {
    assume m: "unat v = 2 ^ 64 - 1"
    have "v = of_nat (unat v)" by simp
    also have "\<dots> = of_nat (2 ^ 64 - 1)" using m by simp
    also have "\<dots> = (- 1 :: u64)" by simp
    finally have v: "v + 1 = 0" by simp
    with g show "GetAndIncrementNonce s = Inr (0, s\<lparr>nonce_file := Some ''0''\<rparr>)"
      by (simp add: FormatUint_small)
    from m show "0 < v" by (simp add: word_less_nat_alt)
  }
  {
    assume b: "unat v < 2 ^ 64 - 1"
    from g show "GetAndIncrementNonce s = Inr (v + 1, s\<lparr>nonce_file := Some (FormatUint (v + 1))\<rparr>)" .
    from b show u: "unat (v + 1) = unat v + 1"
      by (simp add: unat_word_ariths take_bit_nat_eq_self)
    then show "v < v + 1" by (simp add: word_less_nat_alt)
  }
qed

text \<open>The hypotheses of C10 at the boundary value and at \<open>41\<close>.\<close>

theorem GetAndIncrementNonce_wraps_witness:
  "nonce_file (stored (FormatUint 18446744073709551615)) = Some (FormatUint 18446744073709551615)
   \<and> ParseUint (FormatUint 18446744073709551615) = Inr 18446744073709551615
   \<and> can_read (stored (FormatUint 18446744073709551615))
   \<and> can_write (stored (FormatUint 18446744073709551615))
   \<and> unat (18446744073709551615 :: u64) = 2 ^ 64 - 1
   \<and> GetAndIncrementNonce (stored (FormatUint 18446744073709551615)) = Inr (0, stored ''0'')
   \<and> ParseUint ''41'' = Inr 41 \<and> unat (41 :: u64) < 2 ^ 64 - 1
   \<and> GetAndIncrementNonce (stored ''41'') = Inr (42, stored ''42'')"
proof -
  have p: "ParseUint (FormatUint 18446744073709551615) = Inr 18446744073709551615"
    by (rule ParseUint_FormatUint)
  have u: "unat (18446744073709551615 :: u64) = 2 ^ 64 - 1" by simp
  from GetAndIncrementNonce_wraps
    [of "stored (FormatUint 18446744073709551615)" "FormatUint 18446744073709551615"
        18446744073709551615] p u
  have "GetAndIncrementNonce (stored (FormatUint 18446744073709551615)) = Inr (0, stored ''0'')"
    by (simp add: stored_def)
  moreover from GetAndIncrementNonce_wraps [of "stored ''41''" "''41''" 41]
  have "GetAndIncrementNonce (stored ''41'') = Inr (42, stored ''42'')"
    by (simp add: stored_def ParseUint_small FormatUint_small2)
  ultimately show ?thesis using p by (simp add: stored_def ParseUint_small)
qed

section \<open>Properties of the signer\<close>

subsection \<open>Evaluating 64-bit arithmetic on numerals\<close>

text \<open>
  The operations on words, on numerals, in terms of the same operations on natural
  numbers reduced modulo \<open>2^64\<close>. With these rules the simplifier computes a block of
  SHA-512 in the kernel.
\<close>

lemma of_nat_take_bit_u64: "(of_nat (take_bit 64 n) :: u64) = of_nat n"
  by (rule bit_word_eqI) (auto simp add: bit_simps)

lemma of_nat_take_bit_byte: "(of_nat (take_bit 8 n) :: byte) = of_nat n"
  by (rule bit_word_eqI) (auto simp add: bit_simps)

lemma u64_add_nat: "(of_nat x :: u64) + of_nat y = of_nat (take_bit 64 (x + y))"
  by (simp only: of_nat_take_bit_u64 of_nat_add)

lemma u64_xor_nat: "(of_nat x :: u64) XOR of_nat y = of_nat (x XOR y)"
  by (simp only: of_nat_xor_eq)

lemma u64_and_nat: "(of_nat x :: u64) AND of_nat y = of_nat (x AND y)"
  by (simp only: of_nat_and_eq)

lemma u64_or_nat: "(of_nat x :: u64) OR of_nat y = of_nat (x OR y)"
  by (simp only: of_nat_or_eq)

lemma u64_not_nat: "NOT (of_nat x :: u64) = of_nat (x XOR mask 64)"
  by (rule bit_word_eqI) (auto simp add: bit_simps)

lemma u64_drop_nat: "drop_bit n (of_nat x :: u64) = of_nat (drop_bit n (take_bit 64 x))"
  by (rule bit_word_eqI) (auto simp add: bit_simps)

lemma u64_push_nat: "push_bit n (of_nat x :: u64) = of_nat (take_bit 64 (push_bit n x))"
  by (simp only: of_nat_take_bit_u64 of_nat_push_bit)

lemma ucast_byte_u64_nat: "(ucast (of_nat x :: byte) :: u64) = of_nat (take_bit 8 x)"
  by (rule bit_word_eqI) (auto simp add: bit_simps)

lemma ucast_u64_byte_nat: "(ucast (of_nat x :: u64) :: byte) = of_nat (take_bit 8 x)"
  by (rule bit_word_eqI) (auto simp add: bit_simps)

lemma mask_64: "(mask 64 :: nat) = 0xFFFFFFFFFFFFFFFF"
  by (simp add: mask_eq_exp_minus_1)

lemmas u64_numeral =
  u64_add_nat [of "numeral a" "numeral b", unfolded of_nat_numeral]
  u64_xor_nat [of "numeral a" "numeral b", unfolded of_nat_numeral]
  u64_and_nat [of "numeral a" "numeral b", unfolded of_nat_numeral]
  u64_or_nat [of "numeral a" "numeral b", unfolded of_nat_numeral]
  u64_not_nat [of "numeral a", unfolded of_nat_numeral mask_64]
  u64_drop_nat [of _ "numeral a", unfolded of_nat_numeral]
  u64_push_nat [of _ "numeral a", unfolded of_nat_numeral]
  ucast_byte_u64_nat [of "numeral a", unfolded of_nat_numeral]
  ucast_u64_byte_nat [of "numeral a", unfolded of_nat_numeral]
  for a b

lemma u64_zero:
  "NOT (0 :: u64) = 0xFFFFFFFFFFFFFFFF"
  "(ucast (0 :: byte) :: u64) = 0"
  "(ucast (0 :: u64) :: byte) = 0"
  "drop_bit n (0 :: u64) = 0" "push_bit n (0 :: u64) = 0"
  "(0 :: u64) + x = x" "x + (0 :: u64) = x"
  "(0 :: u64) XOR x = x" "x XOR (0 :: u64) = x"
  "(0 :: u64) OR x = x" "x OR (0 :: u64) = x"
  "(0 :: u64) AND x = 0" "x AND (0 :: u64) = 0"
  by simp_all

lemma nat_zero:
  "drop_bit n (0 :: nat) = 0" "push_bit n (0 :: nat) = 0" "take_bit n (0 :: nat) = 0"
  "(0 :: nat) + y = y" "y + (0 :: nat) = y"
  "(0 :: nat) XOR y = y" "y XOR (0 :: nat) = y"
  "(0 :: nat) OR y = y" "y OR (0 :: nat) = y"
  "(0 :: nat) AND y = 0" "y AND (0 :: nat) = 0"
  "drop_bit 0 y = y" "push_bit 0 y = y"
  by simp_all

lemma drop_bit_numeral_One: "drop_bit (numeral l) (numeral Num.One :: nat) = 0"
  by (subst numeral_eq_Suc) (simp add: drop_bit_Suc)

lemma one_numeral:
  "(1 :: u64) = numeral Num.One" "(1 :: byte) = numeral Num.One" "(1 :: nat) = numeral Num.One"
  by simp_all

lemma rotr64_unfold:
  "rotr64 x (numeral Num.One) = drop_bit (numeral Num.One) x OR push_bit 63 x"
  "rotr64 x 8 = drop_bit 8 x OR push_bit 56 x"
  "rotr64 x 14 = drop_bit 14 x OR push_bit 50 x"
  "rotr64 x 18 = drop_bit 18 x OR push_bit 46 x"
  "rotr64 x 19 = drop_bit 19 x OR push_bit 45 x"
  "rotr64 x 28 = drop_bit 28 x OR push_bit 36 x"
  "rotr64 x 34 = drop_bit 34 x OR push_bit 30 x"
  "rotr64 x 39 = drop_bit 39 x OR push_bit 25 x"
  "rotr64 x 41 = drop_bit 41 x OR push_bit 23 x"
  "rotr64 x 61 = drop_bit 61 x OR push_bit 3 x"
  by (simp_all add: rotr64_def)

lemma nat_numeral:
  "(numeral m :: nat) + numeral n = numeral (m + n)"
  "take_bit (numeral l) (numeral n :: nat) =
     (case take_bit_num (numeral l) n of None \<Rightarrow> 0 | Some q \<Rightarrow> numeral q)"
  "(numeral m :: nat) AND numeral n = (case and_num m n of None \<Rightarrow> 0 | Some q \<Rightarrow> numeral q)"
  "(numeral m :: nat) XOR numeral n = (case xor_num m n of None \<Rightarrow> 0 | Some q \<Rightarrow> numeral q)"
  "(numeral m :: nat) OR numeral n = numeral (or_num m n)"
  "drop_bit (numeral l) (numeral (Num.Bit0 n) :: nat) = drop_bit (pred_numeral l) (numeral n)"
  "drop_bit (numeral l) (numeral (Num.Bit1 n) :: nat) = drop_bit (pred_numeral l) (numeral n)"
  "push_bit (numeral l) (numeral n :: nat) = push_bit (pred_numeral l) (numeral (Num.Bit0 n))"
  by (fact numeral_plus_numeral take_bit_numeral_numeral numeral_and_num numeral_xor_num
      numeral_or_num drop_bit_numeral_bit0 drop_bit_numeral_bit1 push_bit_numeral)+

lemmas nat_eval =
  nat_numeral add_num_simps take_bit_num_simps(1,5-7) pred_numeral_simps BitM.simps
  option.case and_num.simps xor_num.simps or_num.simps option.map drop_bit_numeral_One nat_zero

lemma of_nat_word:
  "(of_nat (numeral n) :: u64) = numeral n" "(of_nat (numeral n) :: byte) = numeral n"
  "(of_nat 0 :: u64) = 0" "(of_nat 0 :: byte) = 0"
  by simp_all

lemmas u64_eval = u64_numeral u64_zero of_nat_word one_numeral nat_eval

lemmas sha512_eval =
  rotr64_unfold schedule_t1_def schedule_t2_def next_word.simps(1) round_t1_def round_t2_def
  round_regs_def rounds.simps add_regs_def block_step_def load_words.simps be_u64_def
  prod.case list.sel append_Cons append_Nil sha512_K_def u64_eval

subsection \<open>The known answer for the secret \<open>abc\<close> and the body \<open>method=Trade&nonce=1\<close>\<close>

text \<open>
  The four blocks that HMAC-SHA512 hashes for this input: the inner hash over the key
  block xored with \<open>0x36\<close> and the padded body, the outer hash over the key block xored
  with \<open>0x5c\<close> and the padded inner digest.
\<close>

lemma kat_inner_1:
  "block_step
     (0x6A09E667F3BCC908,
      0xBB67AE8584CAA73B,
      0x3C6EF372FE94F82B,
      0xA54FF53A5F1D36F1,
      0x510E527FADE682D1,
      0x9B05688C2B3E6C1F,
      0x1F83D9ABFB41BD6B,
      0x5BE0CD19137E2179)
    [87, 84, 85, 54, 54, 54, 54, 54, 54, 54, 54, 54, 54, 54, 54, 54,
     54, 54, 54, 54, 54, 54, 54, 54, 54, 54, 54, 54, 54, 54, 54, 54,
     54, 54, 54, 54, 54, 54, 54, 54, 54, 54, 54, 54, 54, 54, 54, 54,
     54, 54, 54, 54, 54, 54, 54, 54, 54, 54, 54, 54, 54, 54, 54, 54,
     54, 54, 54, 54, 54, 54, 54, 54, 54, 54, 54, 54, 54, 54, 54, 54,
     54, 54, 54, 54, 54, 54, 54, 54, 54, 54, 54, 54, 54, 54, 54, 54,
     54, 54, 54, 54, 54, 54, 54, 54, 54, 54, 54, 54, 54, 54, 54, 54,
     54, 54, 54, 54, 54, 54, 54, 54, 54, 54, 54, 54, 54, 54, 54, 54]
   = (0xD375E36292BCB46A,
      0x86A20E84D137B7B4,
      0x1D0732486D6DAAEF,
      0x17317D84C82F6FEE,
      0xB10CEBD219520AC1,
      0xD543352EDD0CFA65,
      0xF42B2E1FB8A18CCE,
      0x567A659694F2635D)"
  by (simp only: sha512_eval)

lemma kat_inner_2:
  "block_step
     (0xD375E36292BCB46A,
      0x86A20E84D137B7B4,
      0x1D0732486D6DAAEF,
      0x17317D84C82F6FEE,
      0xB10CEBD219520AC1,
      0xD543352EDD0CFA65,
      0xF42B2E1FB8A18CCE,
      0x567A659694F2635D)
    [109, 101, 116, 104, 111, 100, 61, 84, 114, 97, 100, 101, 38, 110, 111, 110,
     99, 101, 61, 49, 128, 0, 0, 0, 0, 0, 0, 0, 0, 0, 0, 0,
     0, 0, 0, 0, 0, 0, 0, 0, 0, 0, 0, 0, 0, 0, 0, 0,
     0, 0, 0, 0, 0, 0, 0, 0, 0, 0, 0, 0, 0, 0, 0, 0,
     0, 0, 0, 0, 0, 0, 0, 0, 0, 0, 0, 0, 0, 0, 0, 0,
     0, 0, 0, 0, 0, 0, 0, 0, 0, 0, 0, 0, 0, 0, 0, 0,
     0, 0, 0, 0, 0, 0, 0, 0, 0, 0, 0, 0, 0, 0, 0, 0,
     0, 0, 0, 0, 0, 0, 0, 0, 0, 0, 0, 0, 0, 0, 4, 160]
   = (0x394853513A1E1E8D,
      0xA72C07BCE386BB20,
      0x97F484118F164394,
      0x5E545DB79567AEF0,
      0x66F4B9C5250070B2,
      0x538501D69C8F5221,
      0x83DD76E8F68EB196,
      0x6B6F375D2DA3D87A)"
  by (simp only: sha512_eval)

lemma kat_outer_1:
  "block_step
     (0x6A09E667F3BCC908,
      0xBB67AE8584CAA73B,
      0x3C6EF372FE94F82B,
      0xA54FF53A5F1D36F1,
      0x510E527FADE682D1,
      0x9B05688C2B3E6C1F,
      0x1F83D9ABFB41BD6B,
      0x5BE0CD19137E2179)
    [61, 62, 63, 92, 92, 92, 92, 92, 92, 92, 92, 92, 92, 92, 92, 92,
     92, 92, 92, 92, 92, 92, 92, 92, 92, 92, 92, 92, 92, 92, 92, 92,
     92, 92, 92, 92, 92, 92, 92, 92, 92, 92, 92, 92, 92, 92, 92, 92,
     92, 92, 92, 92, 92, 92, 92, 92, 92, 92, 92, 92, 92, 92, 92, 92,
     92, 92, 92, 92, 92, 92, 92, 92, 92, 92, 92, 92, 92, 92, 92, 92,
     92, 92, 92, 92, 92, 92, 92, 92, 92, 92, 92, 92, 92, 92, 92, 92,
     92, 92, 92, 92, 92, 92, 92, 92, 92, 92, 92, 92, 92, 92, 92, 92,
     92, 92, 92, 92, 92, 92, 92, 92, 92, 92, 92, 92, 92, 92, 92, 92]
   = (0x77A2094B5A358D55,
      0x0B4CD5AC7F254211,
      0xE5EA8B458514D365,
      0x59E417E6F0DA3A86,
      0x14BFF8605C871BD8,
      0x79A95F83E438F9B5,
      0x2DF96C63DC4680A8,
      0xD8B0E4B7D291380A)"
  by (simp only: sha512_eval)

lemma kat_outer_2:
  "block_step
     (0x77A2094B5A358D55,
      0x0B4CD5AC7F254211,
      0xE5EA8B458514D365,
      0x59E417E6F0DA3A86,
      0x14BFF8605C871BD8,
      0x79A95F83E438F9B5,
      0x2DF96C63DC4680A8,
      0xD8B0E4B7D291380A)
    [57, 72, 83, 81, 58, 30, 30, 141, 167, 44, 7, 188, 227, 134, 187, 32,
     151, 244, 132, 17, 143, 22, 67, 148, 94, 84, 93, 183, 149, 103, 174, 240,
     102, 244, 185, 197, 37, 0, 112, 178, 83, 133, 1, 214, 156, 143, 82, 33,
     131, 221, 118, 232, 246, 142, 177, 150, 107, 111, 55, 93, 45, 163, 216, 122,
     128, 0, 0, 0, 0, 0, 0, 0, 0, 0, 0, 0, 0, 0, 0, 0,
     0, 0, 0, 0, 0, 0, 0, 0, 0, 0, 0, 0, 0, 0, 0, 0,
     0, 0, 0, 0, 0, 0, 0, 0, 0, 0, 0, 0, 0, 0, 0, 0,
     0, 0, 0, 0, 0, 0, 0, 0, 0, 0, 0, 0, 0, 0, 6, 0]
   = (0xAE816DD0AEA9C562,
      0x78E2E48EC9B4228D,
      0xD05CCDE4FF01BA11,
      0x1B10E48E55539F36,
      0xA7D7C855D35F982C,
      0xFC8E131C8CD99F2F,
      0x1F82B1340559BAA1,
      0xF2630053A354C380)"
  by (simp only: sha512_eval)

lemma kat_secret: "bytes_of ''abc'' = [97, 98, 99]"
  by (simp add: bytes_of_def)

lemma kat_body:
  "bytes_of ''method=Trade&nonce=1'' =
    [109, 101, 116, 104, 111, 100, 61, 84, 114, 97, 100, 101, 38, 110, 111, 110,
     99, 101, 61, 49]"
  by (simp add: bytes_of_def)

lemma kat_ipad:
  "hmac_pad 0x36 (hmac_key [97, 98, 99]) =
    [87, 84, 85, 54, 54, 54, 54, 54, 54, 54, 54, 54, 54, 54, 54, 54,
     54, 54, 54, 54, 54, 54, 54, 54, 54, 54, 54, 54, 54, 54, 54, 54,
     54, 54, 54, 54, 54, 54, 54, 54, 54, 54, 54, 54, 54, 54, 54, 54,
     54, 54, 54, 54, 54, 54, 54, 54, 54, 54, 54, 54, 54, 54, 54, 54,
     54, 54, 54, 54, 54, 54, 54, 54, 54, 54, 54, 54, 54, 54, 54, 54,
     54, 54, 54, 54, 54, 54, 54, 54, 54, 54, 54, 54, 54, 54, 54, 54,
     54, 54, 54, 54, 54, 54, 54, 54, 54, 54, 54, 54, 54, 54, 54, 54,
     54, 54, 54, 54, 54, 54, 54, 54, 54, 54, 54, 54, 54, 54, 54, 54]"
  by (simp add: hmac_pad_def hmac_key_def numeral_eq_Suc)

lemma kat_opad:
  "hmac_pad 0x5c (hmac_key [97, 98, 99]) =
    [61, 62, 63, 92, 92, 92, 92, 92, 92, 92, 92, 92, 92, 92, 92, 92,
     92, 92, 92, 92, 92, 92, 92, 92, 92, 92, 92, 92, 92, 92, 92, 92,
     92, 92, 92, 92, 92, 92, 92, 92, 92, 92, 92, 92, 92, 92, 92, 92,
     92, 92, 92, 92, 92, 92, 92, 92, 92, 92, 92, 92, 92, 92, 92, 92,
     92, 92, 92, 92, 92, 92, 92, 92, 92, 92, 92, 92, 92, 92, 92, 92,
     92, 92, 92, 92, 92, 92, 92, 92, 92, 92, 92, 92, 92, 92, 92, 92,
     92, 92, 92, 92, 92, 92, 92, 92, 92, 92, 92, 92, 92, 92, 92, 92,
     92, 92, 92, 92, 92, 92, 92, 92, 92, 92, 92, 92, 92, 92, 92, 92]"
  by (simp add: hmac_pad_def hmac_key_def numeral_eq_Suc)

lemma kat_padding_148:
  "sha512_padding 148 = 0x80 # replicate 91 0 @ [0, 0, 0, 0, 0, 0, 0, 0, 0, 0, 0, 0, 0, 0, 4, 160]"
  by (simp add: sha512_padding_def put_u64_def)

lemma kat_padding_192:
  "sha512_padding 192 = 0x80 # replicate 47 0 @ [0, 0, 0, 0, 0, 0, 0, 0, 0, 0, 0, 0, 0, 0, 6, 0]"
  by (simp add: sha512_padding_def put_u64_def)

lemma kat_inner_tail:
  "[109, 101, 116, 104, 111, 100, 61, 84, 114, 97, 100, 101, 38, 110, 111, 110,
     99, 101, 61, 49] @ sha512_padding 148 =
    [109, 101, 116, 104, 111, 100, 61, 84, 114, 97, 100, 101, 38, 110, 111, 110,
     99, 101, 61, 49, 128, 0, 0, 0, 0, 0, 0, 0, 0, 0, 0, 0,
     0, 0, 0, 0, 0, 0, 0, 0, 0, 0, 0, 0, 0, 0, 0, 0,
     0, 0, 0, 0, 0, 0, 0, 0, 0, 0, 0, 0, 0, 0, 0, 0,
     0, 0, 0, 0, 0, 0, 0, 0, 0, 0, 0, 0, 0, 0, 0, 0,
     0, 0, 0, 0, 0, 0, 0, 0, 0, 0, 0, 0, 0, 0, 0, 0,
     0, 0, 0, 0, 0, 0, 0, 0, 0, 0, 0, 0, 0, 0, 0, 0,
     0, 0, 0, 0, 0, 0, 0, 0, 0, 0, 0, 0, 0, 0, 4, 160]"
  unfolding kat_padding_148 by (simp add: numeral_eq_Suc)

lemma kat_outer_tail:
  "[57, 72, 83, 81, 58, 30, 30, 141, 167, 44, 7, 188, 227, 134, 187, 32,
     151, 244, 132, 17, 143, 22, 67, 148, 94, 84, 93, 183, 149, 103, 174, 240,
     102, 244, 185, 197, 37, 0, 112, 178, 83, 133, 1, 214, 156, 143, 82, 33,
     131, 221, 118, 232, 246, 142, 177, 150, 107, 111, 55, 93, 45, 163, 216, 122] @ sha512_padding 192 =
    [57, 72, 83, 81, 58, 30, 30, 141, 167, 44, 7, 188, 227, 134, 187, 32,
     151, 244, 132, 17, 143, 22, 67, 148, 94, 84, 93, 183, 149, 103, 174, 240,
     102, 244, 185, 197, 37, 0, 112, 178, 83, 133, 1, 214, 156, 143, 82, 33,
     131, 221, 118, 232, 246, 142, 177, 150, 107, 111, 55, 93, 45, 163, 216, 122,
     128, 0, 0, 0, 0, 0, 0, 0, 0, 0, 0, 0, 0, 0, 0, 0,
     0, 0, 0, 0, 0, 0, 0, 0, 0, 0, 0, 0, 0, 0, 0, 0,
     0, 0, 0, 0, 0, 0, 0, 0, 0, 0, 0, 0, 0, 0, 0, 0,
     0, 0, 0, 0, 0, 0, 0, 0, 0, 0, 0, 0, 0, 0, 6, 0]"
  unfolding kat_padding_192 by (simp add: numeral_eq_Suc)

lemma block_two:
  assumes "length p1 = 128" "length p2 = 128"
  shows "block r (p1 @ p2) = block_step (block_step r p1) p2"
proof -
  have "block r (p1 @ p2) = block (block_step r p1) p2"
    using assms by (subst block.simps) simp
  also have "\<dots> = block (block_step (block_step r p1) p2) []"
    using assms by (subst block.simps) simp
  also have "\<dots> = block_step (block_step r p1) p2"
    by (subst block.simps) simp
  finally show ?thesis .
qed

lemma kat_inner_bytes:
  "regs_bytes
     (0x394853513A1E1E8D,
      0xA72C07BCE386BB20,
      0x97F484118F164394,
      0x5E545DB79567AEF0,
      0x66F4B9C5250070B2,
      0x538501D69C8F5221,
      0x83DD76E8F68EB196,
      0x6B6F375D2DA3D87A)
   = [57, 72, 83, 81, 58, 30, 30, 141, 167, 44, 7, 188, 227, 134, 187, 32,
     151, 244, 132, 17, 143, 22, 67, 148, 94, 84, 93, 183, 149, 103, 174, 240,
     102, 244, 185, 197, 37, 0, 112, 178, 83, 133, 1, 214, 156, 143, 82, 33,
     131, 221, 118, 232, 246, 142, 177, 150, 107, 111, 55, 93, 45, 163, 216, 122]"
  by (simp only: regs_bytes_def put_u64_def prod.case append_Cons append_Nil u64_eval)

lemma kat_outer_bytes:
  "regs_bytes
     (0xAE816DD0AEA9C562,
      0x78E2E48EC9B4228D,
      0xD05CCDE4FF01BA11,
      0x1B10E48E55539F36,
      0xA7D7C855D35F982C,
      0xFC8E131C8CD99F2F,
      0x1F82B1340559BAA1,
      0xF2630053A354C380)
   = [174, 129, 109, 208, 174, 169, 197, 98, 120, 226, 228, 142, 201, 180, 34, 141,
     208, 92, 205, 228, 255, 1, 186, 17, 27, 16, 228, 142, 85, 83, 159, 54,
     167, 215, 200, 85, 211, 95, 152, 44, 252, 142, 19, 28, 140, 217, 159, 47,
     31, 130, 177, 52, 5, 89, 186, 161, 242, 99, 0, 83, 163, 84, 195, 128]"
  by (simp only: regs_bytes_def put_u64_def prod.case append_Cons append_Nil u64_eval)

lemma kat_hex:
  "hex_EncodeToString
     [174, 129, 109, 208, 174, 169, 197, 98, 120, 226, 228, 142, 201, 180, 34, 141,
     208, 92, 205, 228, 255, 1, 186, 17, 27, 16, 228, 142, 85, 83, 159, 54,
     167, 215, 200, 85, 211, 95, 152, 44, 252, 142, 19, 28, 140, 217, 159, 47,
     31, 130, 177, 52, 5, 89, 186, 161, 242, 99, 0, 83, 163, 84, 195, 128]
   = ''ae816dd0aea9c56278e2e48ec9b4228dd05ccde4ff01ba111b10e48e55539f36a7d7c855d35f982cfc8e131c8cd99f2f1f82b1340559baa1f2630053a354c380''"
  by (simp add: hex_EncodeToString_def hextable_def)

lemma sha512_Sum_two_blocks:
  assumes "length p1 = 128" "sha512_padding (length (p1 @ m)) = pad" "length (m @ pad) = 128"
  shows "sha512_Sum (p1 @ m) = regs_bytes (block_step (block_step sha512_init p1) (m @ pad))"
proof -
  have "sha512_Sum (p1 @ m) = regs_bytes (block sha512_init (p1 @ (m @ pad)))"
    using assms(2) by (simp add: sha512_Sum_def)
  then show ?thesis using assms(1,3) by (simp only: block_two)
qed

lemma kat_inner:
  "sha512_Sum (hmac_pad 0x36 (hmac_key [97, 98, 99]) @
     [109, 101, 116, 104, 111, 100, 61, 84, 114, 97, 100, 101, 38, 110, 111, 110,
      99, 101, 61, 49])
   = [57, 72, 83, 81, 58, 30, 30, 141, 167, 44, 7, 188, 227, 134, 187, 32,
      151, 244, 132, 17, 143, 22, 67, 148, 94, 84, 93, 183, 149, 103, 174, 240,
      102, 244, 185, 197, 37, 0, 112, 178, 83, 133, 1, 214, 156, 143, 82, 33,
      131, 221, 118, 232, 246, 142, 177, 150, 107, 111, 55, 93, 45, 163, 216, 122]"
proof -
  have l1: "length (hmac_pad 0x36 (hmac_key [97, 98, 99])) = 128"
    by (simp add: kat_ipad)
  have "length (hmac_pad 0x36 (hmac_key [97, 98, 99]) @
     [109, 101, 116, 104, 111, 100, 61, 84, 114, 97, 100, 101, 38, 110, 111, 110,
      99, 101, 61, 49]) = 148"
    by (simp add: kat_ipad)
  then have l2: "sha512_padding (length (hmac_pad 0x36 (hmac_key [97, 98, 99]) @
     [109, 101, 116, 104, 111, 100, 61, 84, 114, 97, 100, 101, 38, 110, 111, 110,
      99, 101, 61, 49]))
    = sha512_padding 148"
    by (simp only:)
  have l3: "length (
     [109, 101, 116, 104, 111, 100, 61, 84, 114, 97, 100, 101, 38, 110, 111, 110,
      99, 101, 61, 49] @ sha512_padding 148) = 128"
    by (simp only: kat_inner_tail) simp
  from l1 l2 l3 have "sha512_Sum (hmac_pad 0x36 (hmac_key [97, 98, 99]) @
     [109, 101, 116, 104, 111, 100, 61, 84, 114, 97, 100, 101, 38, 110, 111, 110,
      99, 101, 61, 49])
    = regs_bytes (block_step (block_step sha512_init (hmac_pad 0x36 (hmac_key [97, 98, 99])))
     ([109, 101, 116, 104, 111, 100, 61, 84, 114, 97, 100, 101, 38, 110, 111, 110,
      99, 101, 61, 49] @ sha512_padding 148))"
    by (rule sha512_Sum_two_blocks)
  then show ?thesis
    by (simp only: kat_ipad kat_inner_tail sha512_init_def kat_inner_1 kat_inner_2 kat_inner_bytes)
qed

lemma kat_outer:
  "sha512_Sum (hmac_pad 0x5c (hmac_key [97, 98, 99]) @
     [57, 72, 83, 81, 58, 30, 30, 141, 167, 44, 7, 188, 227, 134, 187, 32,
      151, 244, 132, 17, 143, 22, 67, 148, 94, 84, 93, 183, 149, 103, 174, 240,
      102, 244, 185, 197, 37, 0, 112, 178, 83, 133, 1, 214, 156, 143, 82, 33,
      131, 221, 118, 232, 246, 142, 177, 150, 107, 111, 55, 93, 45, 163, 216, 122])
   = [174, 129, 109, 208, 174, 169, 197, 98, 120, 226, 228, 142, 201, 180, 34, 141,
      208, 92, 205, 228, 255, 1, 186, 17, 27, 16, 228, 142, 85, 83, 159, 54,
      167, 215, 200, 85, 211, 95, 152, 44, 252, 142, 19, 28, 140, 217, 159, 47,
      31, 130, 177, 52, 5, 89, 186, 161, 242, 99, 0, 83, 163, 84, 195, 128]"
proof -
  have l1: "length (hmac_pad 0x5c (hmac_key [97, 98, 99])) = 128"
    by (simp add: kat_opad)
  have "length (hmac_pad 0x5c (hmac_key [97, 98, 99]) @
     [57, 72, 83, 81, 58, 30, 30, 141, 167, 44, 7, 188, 227, 134, 187, 32,
      151, 244, 132, 17, 143, 22, 67, 148, 94, 84, 93, 183, 149, 103, 174, 240,
      102, 244, 185, 197, 37, 0, 112, 178, 83, 133, 1, 214, 156, 143, 82, 33,
      131, 221, 118, 232, 246, 142, 177, 150, 107, 111, 55, 93, 45, 163, 216, 122]) = 192"
    by (simp add: kat_opad)
  then have l2: "sha512_padding (length (hmac_pad 0x5c (hmac_key [97, 98, 99]) @
     [57, 72, 83, 81, 58, 30, 30, 141, 167, 44, 7, 188, 227, 134, 187, 32,
      151, 244, 132, 17, 143, 22, 67, 148, 94, 84, 93, 183, 149, 103, 174, 240,
      102, 244, 185, 197, 37, 0, 112, 178, 83, 133, 1, 214, 156, 143, 82, 33,
      131, 221, 118, 232, 246, 142, 177, 150, 107, 111, 55, 93, 45, 163, 216, 122]))
    = sha512_padding 192"
    by (simp only:)
  have l3: "length (
     [57, 72, 83, 81, 58, 30, 30, 141, 167, 44, 7, 188, 227, 134, 187, 32,
      151, 244, 132, 17, 143, 22, 67, 148, 94, 84, 93, 183, 149, 103, 174, 240,
      102, 244, 185, 197, 37, 0, 112, 178, 83, 133, 1, 214, 156, 143, 82, 33,
      131, 221, 118, 232, 246, 142, 177, 150, 107, 111, 55, 93, 45, 163, 216, 122] @ sha512_padding 192) = 128"
    by (simp only: kat_outer_tail) simp
  from l1 l2 l3 have "sha512_Sum (hmac_pad 0x5c (hmac_key [97, 98, 99]) @
     [57, 72, 83, 81, 58, 30, 30, 141, 167, 44, 7, 188, 227, 134, 187, 32,
      151, 244, 132, 17, 143, 22, 67, 148, 94, 84, 93, 183, 149, 103, 174, 240,
      102, 244, 185, 197, 37, 0, 112, 178, 83, 133, 1, 214, 156, 143, 82, 33,
      131, 221, 118, 232, 246, 142, 177, 150, 107, 111, 55, 93, 45, 163, 216, 122])
    = regs_bytes (block_step (block_step sha512_init (hmac_pad 0x5c (hmac_key [97, 98, 99])))
     ([57, 72, 83, 81, 58, 30, 30, 141, 167, 44, 7, 188, 227, 134, 187, 32,
      151, 244, 132, 17, 143, 22, 67, 148, 94, 84, 93, 183, 149, 103, 174, 240,
      102, 244, 185, 197, 37, 0, 112, 178, 83, 133, 1, 214, 156, 143, 82, 33,
      131, 221, 118, 232, 246, 142, 177, 150, 107, 111, 55, 93, 45, 163, 216, 122] @ sha512_padding 192))"
    by (rule sha512_Sum_two_blocks)
  then show ?thesis
    by (simp only: kat_opad kat_outer_tail sha512_init_def kat_outer_1 kat_outer_2 kat_outer_bytes)
qed

lemma kat_sign:
  "signHmacSha512 (bytes_of ''abc'') (bytes_of ''method=Trade&nonce=1'') =
     ''ae816dd0aea9c56278e2e48ec9b4228dd05ccde4ff01ba111b10e48e55539f36a7d7c855d35f982cfc8e131c8cd99f2f1f82b1340559baa1f2630053a354c380''"
  by (simp add: signHmacSha512_def hmac_sha512_def kat_secret kat_body kat_inner kat_outer kat_hex)

subsection \<open>The shape of a signature\<close>

lemma length_regs_bytes: "length (regs_bytes r) = 64"
  by (simp add: regs_bytes_def put_u64_def split: prod.splits)

lemma length_sha512_Sum: "length (sha512_Sum msg) = 64"
  by (simp add: sha512_Sum_def length_regs_bytes)

lemma length_hmac_sha512: "length (hmac_sha512 key message) = 64"
  by (simp add: hmac_sha512_def length_sha512_Sum)

lemma length_hex_EncodeToString: "length (hex_EncodeToString src) = 2 * length src"
  by (induction src) (simp_all add: hex_EncodeToString_def)

lemma hex_digit_high: "unat (drop_bit 4 (v :: byte)) < 16"
proof -
  have "unat v < 2 ^ 8" using unsigned_less [of v] by simp
  moreover have "unat (drop_bit 4 v) = unat v div 16"
    by (simp add: drop_bit_eq_div unat_div)
  ultimately show ?thesis by simp
qed

lemma hex_digit_low: "unat ((v :: byte) AND 0x0f) < 16"
proof -
  have "unat (v AND 15) \<le> unat (15 :: byte)"
    by (rule word_and_le1 [THEN word_le_nat_alt [THEN iffD1]])
  then show ?thesis by simp
qed

lemma set_hex_EncodeToString: "set (hex_EncodeToString src) \<subseteq> set hextable"
proof -
  have "hextable ! i \<in> set hextable" if "i < 16" for i
    using that by (intro nth_mem) (simp add: hextable_def)
  then show ?thesis
    using hex_digit_high hex_digit_low by (auto simp: hex_EncodeToString_def)
qed

section \<open>The signer computes HMAC-SHA512\<close>

text \<open>
  The hash, the keyed hash and the hexadecimal text of the program are compared with the
  definitions that follow the standards, step by step: the functions of a round, the
  message schedule, the eighty rounds of a block, the padding, the digest, the two padded
  keys, and the text.
\<close>

subsection \<open>The functions and the words of a block\<close>

lemma rotr64_ROTR:
  assumes "n \<le> 64"
  shows "rotr64 x n = ROTR n x"
  unfolding rotr64_def ROTR_def
proof (rule bit_word_eqI)
  fix i :: nat
  assume i: "i < LENGTH(64)"
  have m: "(i + n) mod 64 = (if i + n < 64 then i + n else i + n - 64)"
    using assms i by (simp add: mod_if)
  show "bit (drop_bit n x OR push_bit (64 - n) x) i = bit (word_rotr n x) i"
    using assms i by (auto simp: bit_simps m add.commute dest: bit_imp_le_length)
qed

lemma schedule_sigma: "schedule_t1 v = sigma1 v" "schedule_t2 v = sigma0 v"
  by (simp_all add: schedule_t1_def schedule_t2_def sigma1_def sigma0_def rotr64_ROTR SHR_def)

lemma round_T1: "round_t1 e f g h k w = h + Sigma1 e + Ch e f g + k + w"
  by (simp add: round_t1_def Sigma1_def Ch_def rotr64_ROTR)

lemma round_T2: "round_t2 a b c = Sigma0 a + Maj a b c"
  by (simp add: round_t2_def Sigma0_def Maj_def rotr64_ROTR)

lemma horner_byte:
  "push_bit 8 (of_nat m :: u64) OR ucast (b :: byte) = of_nat (256 * m + unat b)"
proof -
  have "push_bit 8 (of_nat m :: u64) + ucast b = push_bit 8 (of_nat m) OR ucast b"
    by (rule disjunctive_add) (auto simp: bit_simps dest: bit_imp_le_length)
  moreover have "push_bit 8 (of_nat m :: u64) = of_nat (256 * m)"
    by (simp add: push_bit_eq_mult)
  ultimately show ?thesis by simp
qed

lemma be_u64_horner:
  "be_u64 b0 b1 b2 b3 b4 b5 b6 b7 =
     push_bit 8 (push_bit 8 (push_bit 8 (push_bit 8 (push_bit 8 (push_bit 8 (push_bit 8
       (ucast b0) OR ucast b1) OR ucast b2) OR ucast b3) OR ucast b4) OR ucast b5) OR ucast b6)
       OR ucast b7"
  unfolding be_u64_def
  by (rule bit_word_eqI) (auto simp: bit_simps)

lemma be_u64_nat:
  "be_u64 b0 b1 b2 b3 b4 b5 b6 b7 =
     word_of_nat (foldl (\<lambda>n b. 256 * n + unat b) 0 [b0, b1, b2, b3, b4, b5, b6, b7])"
proof -
  have u: "(ucast b0 :: u64) = of_nat (unat b0)" by simp
  show ?thesis
    unfolding be_u64_horner
    by (simp only: u horner_byte foldl.simps mult_0_right add_0_left)
qed

subsection \<open>The message schedule and the eighty rounds\<close>

text \<open>
  The program keeps a window of sixteen words of the message schedule and shifts it by
  one word in every round; the standard defines the schedule \<open>W\<close> by recursion on the
  index of the round.
\<close>

lemma block_word_0:
  "block_word (b0 # b1 # b2 # b3 # b4 # b5 # b6 # b7 # p) 0 = be_u64 b0 b1 b2 b3 b4 b5 b6 b7"
  by (simp add: block_word_def be_u64_nat)

lemma block_word_Suc:
  "block_word (b0 # b1 # b2 # b3 # b4 # b5 # b6 # b7 # p) (Suc t) = block_word p t"
proof -
  have "drop (8 * Suc t) (b0 # b1 # b2 # b3 # b4 # b5 # b6 # b7 # p)
      = drop (8 * t) (drop 8 (b0 # b1 # b2 # b3 # b4 # b5 # b6 # b7 # p))"
    by (simp only: drop_drop) (simp add: add.commute)
  then show ?thesis by (simp add: block_word_def)
qed

lemma load_words_block_word: "load_words p = map (block_word p) [0..<length p div 8]"
proof (induction p rule: load_words.induct)
  case (1 b0 b1 b2 b3 b4 b5 b6 b7 p)
  have "length (b0 # b1 # b2 # b3 # b4 # b5 # b6 # b7 # p) div 8 = Suc (length p div 8)"
    by simp
  then have "map (block_word (b0 # b1 # b2 # b3 # b4 # b5 # b6 # b7 # p))
        [0..<length (b0 # b1 # b2 # b3 # b4 # b5 # b6 # b7 # p) div 8]
      = block_word (b0 # b1 # b2 # b3 # b4 # b5 # b6 # b7 # p) 0 #
        map (\<lambda>t. block_word (b0 # b1 # b2 # b3 # b4 # b5 # b6 # b7 # p) (Suc t)) [0..<length p div 8]"
    by (simp only: upt_conv_Cons zero_less_Suc list.map map_Suc_upt [symmetric] map_map comp_def)
  with 1 show ?case by (simp only: load_words.simps block_word_0 block_word_Suc)
qed simp_all

lemma W_low: "t < 16 \<Longrightarrow> W blk t = block_word blk t"
  by (subst W.simps) simp

lemma W_high:
  "W blk (t + 16) = sigma1 (W blk (t + 14)) + W blk (t + 9) + sigma0 (W blk (Suc t)) + W blk t"
  by (subst W.simps) (simp add: add.commute)

lemma load_words_W:
  assumes "length blk = 128"
  shows "load_words blk =
    [W blk 0, W blk (Suc 0), W blk 2, W blk 3,
       W blk 4, W blk 5, W blk 6, W blk 7,
       W blk 8, W blk 9, W blk 10, W blk 11,
       W blk 12, W blk 13, W blk 14, W blk 15]"
proof -
  have "[0..<16] = [0, 1, 2, 3, 4, 5, 6, 7, 8, 9, 10, 11, 12, 13, 14, 15 :: nat]"
    by (simp add: upt_rec)
  then show ?thesis using assms by (simp add: load_words_block_word W_low)
qed

lemma length_sha512_K: "length sha512_K = 80"
  by (simp add: sha512_K_def)

lemma rounds_working:
  assumes "t \<le> 80"
  shows "rounds (drop t sha512_K)
      [W blk t, W blk (Suc t), W blk (t + 2), W blk (t + 3),
       W blk (t + 4), W blk (t + 5), W blk (t + 6), W blk (t + 7),
       W blk (t + 8), W blk (t + 9), W blk (t + 10), W blk (t + 11),
       W blk (t + 12), W blk (t + 13), W blk (t + 14), W blk (t + 15)]
      (working blk H t)
    = working blk H 80"
  using assms
proof (induction "80 - t" arbitrary: t)
  case 0
  then have "t = 80" by simp
  then show ?case by (simp add: length_sha512_K)
next
  case (Suc n)
  then have t: "t < 80" and n: "n = 80 - Suc t" by simp_all
  obtain a b c d e f g h where r: "working blk H t = (a, b, c, d, e, f, g, h)"
    by (cases "working blk H t") auto
  have k: "drop t sha512_K = sha512_K ! t # drop (Suc t) sha512_K"
    using t by (simp add: Cons_nth_drop_Suc length_sha512_K)
  have step: "round_regs (round_t1 e f g h (sha512_K ! t) (W blk t)) (round_t2 a b c)
        (a, b, c, d, e, f, g, h) = working blk H (Suc t)"
    by (simp add: round_regs_def round_T1 round_T2 r Let_def)
  have idx: "Suc (Suc t) = t + 2" "Suc t + 2 = t + 3" "Suc t + 3 = t + 4" "Suc t + 4 = t + 5" "Suc t + 5 = t + 6" "Suc t + 6 = t + 7" "Suc t + 7 = t + 8" "Suc t + 8 = t + 9" "Suc t + 9 = t + 10" "Suc t + 10 = t + 11" "Suc t + 11 = t + 12" "Suc t + 12 = t + 13" "Suc t + 13 = t + 14" "Suc t + 14 = t + 15" "Suc t + 15 = t + 16"
    by simp_all
  have "rounds (drop t sha512_K)
      [W blk t, W blk (Suc t), W blk (t + 2), W blk (t + 3),
       W blk (t + 4), W blk (t + 5), W blk (t + 6), W blk (t + 7),
       W blk (t + 8), W blk (t + 9), W blk (t + 10), W blk (t + 11),
       W blk (t + 12), W blk (t + 13), W blk (t + 14), W blk (t + 15)]
      (working blk H t)
    = rounds (drop (Suc t) sha512_K)
      [W blk (Suc t), W blk (t + 2), W blk (t + 3), W blk (t + 4),
       W blk (t + 5), W blk (t + 6), W blk (t + 7), W blk (t + 8),
       W blk (t + 9), W blk (t + 10), W blk (t + 11), W blk (t + 12),
       W blk (t + 13), W blk (t + 14), W blk (t + 15), schedule_t1 (W blk (t + 14)) + W blk (t + 9) + schedule_t2 (W blk (Suc t)) + W blk t]
      (working blk H (Suc t))"
    unfolding k r
    by (simp only: rounds.simps list.sel append_Cons append_Nil next_word.simps step)
  also have "\<dots> = rounds (drop (Suc t) sha512_K)
      [W blk (Suc t), W blk (t + 2), W blk (t + 3), W blk (t + 4),
       W blk (t + 5), W blk (t + 6), W blk (t + 7), W blk (t + 8),
       W blk (t + 9), W blk (t + 10), W blk (t + 11), W blk (t + 12),
       W blk (t + 13), W blk (t + 14), W blk (t + 15), W blk (t + 16)]
      (working blk H (Suc t))"
    by (simp only: schedule_sigma W_high [symmetric])
  also have "\<dots> = working blk H 80"
  proof -
    from t have "Suc t \<le> 80" by simp
    from Suc.hyps(1) [OF n this] show ?thesis unfolding idx .
  qed
  finally show ?case .
qed

lemma rounds_working_0:
  "rounds sha512_K
      [W blk 0, W blk (Suc 0), W blk 2, W blk 3,
       W blk 4, W blk 5, W blk 6, W blk 7,
       W blk 8, W blk 9, W blk 10, W blk 11,
       W blk 12, W blk 13, W blk 14, W blk 15] H
    = working blk H 80"
  using rounds_working [OF le0, of blk H]
  by (simp only: add_0 drop_0 working.simps)

lemma block_step_hash_block:
  assumes "length blk = 128"
  shows "block_step H blk = hash_block H blk"
proof -
  have "rounds sha512_K (load_words blk) H = working blk H 80"
    by (simp only: load_words_W [OF assms] rounds_working_0)
  then show ?thesis
    by (simp add: block_step_def hash_block_def add_regs_def add.commute split: prod.splits)
qed

subsection \<open>The blocks of a message\<close>

lemma message_blocks_short: "length p < 128 \<Longrightarrow> message_blocks p = []"
  by (simp add: message_blocks_def)

lemma message_blocks_long:
  assumes "128 \<le> length p"
  shows "message_blocks p = take 128 p # message_blocks (drop 128 p)"
proof -
  have d: "length p div 128 = Suc ((length p - 128) div 128)"
    using assms by (simp add: le_div_geq)
  have "map (\<lambda>i. take 128 (drop (128 * i) p)) [0..<Suc ((length p - 128) div 128)]
      = take 128 (drop (128 * 0) p) #
        map (\<lambda>i. take 128 (drop (128 * Suc i) p)) [0..<(length p - 128) div 128]"
    by (simp only: upt_conv_Cons zero_less_Suc list.map map_Suc_upt [symmetric] map_map comp_def)
  then show ?thesis
    by (simp add: message_blocks_def d add.commute)
qed

lemma block_foldl: "block r p = foldl block_step r (message_blocks p)"
proof (induction r p rule: block.induct)
  case (1 r p)
  show ?case
  proof (cases "length p < 128")
    case True
    then show ?thesis by (subst block.simps) (simp add: message_blocks_short)
  next
    case False
    with 1 show ?thesis
      by (subst block.simps) (simp add: message_blocks_long)
  qed
qed

lemma length_message_blocks: "blk \<in> set (message_blocks p) \<Longrightarrow> length blk = 128"
proof -
  assume "blk \<in> set (message_blocks p)"
  then obtain i where i: "i < length p div 128" and b: "blk = take 128 (drop (128 * i) p)"
    by (auto simp: message_blocks_def)
  from i have "128 * i + 128 \<le> length p"
    by arith
  then show ?thesis using b by simp
qed

lemma foldl_block_step_hash_block:
  "\<forall>blk \<in> set bs. length blk = 128 \<Longrightarrow> foldl block_step r bs = foldl hash_block r bs"
  by (induction bs arbitrary: r) (simp_all add: block_step_hash_block)

lemma block_hash_blocks: "block r p = foldl hash_block r (message_blocks p)"
  by (simp add: block_foldl foldl_block_step_hash_block length_message_blocks)

lemma put_u64_word_bytes: "put_u64 v = word_bytes v"
proof -
  have "[0..<8] = [0, 1, 2, 3, 4, 5, 6, 7 :: nat]" by (simp add: upt_rec)
  moreover have "(ucast (drop_bit (8 * k) v) :: byte) = of_nat (unat v div 256 ^ k)" for k
  proof -
    have "(256 :: nat) ^ k = 2 ^ (8 * k)" by (simp add: power_mult)
    have "unat (drop_bit (8 * k) v) = drop_bit (8 * k) (unat v)"
      by (simp only: unat_drop_bit_eq)
    also have "\<dots> = unat v div 2 ^ (8 * k)"
      by (simp only: drop_bit_eq_div)
    finally have "unat (drop_bit (8 * k) v) = unat v div 256 ^ k"
      by (simp only: \<open>(256 :: nat) ^ k = 2 ^ (8 * k)\<close>)
    then show ?thesis by (metis of_nat_unat)
  qed
  from this [of 7] this [of 6] this [of 5] this [of 4] this [of 3] this [of 2] this [of 1] this [of 0]
  have "put_u64 v = [of_nat (unat v div 256 ^ 7), of_nat (unat v div 256 ^ 6),
      of_nat (unat v div 256 ^ 5), of_nat (unat v div 256 ^ 4), of_nat (unat v div 256 ^ 3),
      of_nat (unat v div 256 ^ 2), of_nat (unat v div 256 ^ 1), of_nat (unat v div 256 ^ 0)]"
    by (simp add: put_u64_def)
  ultimately show ?thesis by (simp add: word_bytes_def)
qed

lemma regs_bytes_word_bytes:
  "regs_bytes r =
     (case r of (h0, h1, h2, h3, h4, h5, h6, h7) \<Rightarrow>
        concat (map word_bytes [h0, h1, h2, h3, h4, h5, h6, h7]))"
  by (simp add: regs_bytes_def put_u64_word_bytes split: prod.splits)

subsection \<open>The padding\<close>

text \<open>
  The program counts the bytes of the message in a \<open>uint64\<close> and writes the number of
  bits as \<open>len << 3\<close> behind eight zero bytes. That is the length of 128 bits of the
  standard as long as the number of bits is below \<open>2 ^ 64\<close>.
\<close>

lemma bit_length_mod: "(8 * len + 1) mod 1024 = 8 * (len mod 128) + (1::nat)"
proof -
  define q t where "q = len div 128" and "t = len mod 128"
  have len: "len = 128 * q + t" by (simp add: q_def t_def)
  have "8 * len + 1 = (8 * t + 1) + 1024 * q" by (simp add: len)
  then have "(8 * len + 1) mod 1024 = (8 * t + 1) mod 1024"
    by (simp only: mod_mult_self2)
  moreover have "t < 128" by (simp add: t_def)
  then have "8 * t + 1 < 1024" by linarith
  ultimately show ?thesis by (simp add: t_def)
qed

lemma zero_bytes:
  "(zero_bits (8 * len) - 7) div 8 =
     (if len mod 128 < 112 then 112 - len mod 128 else 128 + 112 - len mod 128) - 1"
proof -
  define t where "t = len mod 128"
  have "(8 * len + 1) mod 1024 = 8 * t + 1"
    unfolding t_def by (rule bit_length_mod)
  moreover have "t < 128" by (simp add: t_def)
  moreover have "(1919 - 8 * t) mod 1024 = (if t < 112 then 895 - 8 * t else 1919 - 8 * t)"
    using \<open>t < 128\<close> by (simp add: mod_if le_mod_geq)
  moreover have "(888 - 8 * t) div 8 = 111 - t" "(1912 - 8 * t) div 8 = 239 - t"
    by linarith+
  ultimately show ?thesis
    unfolding zero_bits_def t_def [symmetric] by simp
qed

lemma word_bytes_of_nat:
  assumes "l < 2 ^ 64"
  shows "word_bytes (of_nat l) = map (\<lambda>i. of_nat (l div 256 ^ (7 - i))) [0..<8]"
proof -
  have "unat (of_nat l :: u64) = l"
    using assms by (simp add: unat_of_nat take_bit_nat_eq_self)
  then show ?thesis by (simp add: word_bytes_def)
qed

lemma word_bytes_0: "word_bytes 0 = replicate 8 0"
  by (simp add: word_bytes_def upt_rec numeral_eq_Suc)

lemma length_block_u64:
  assumes "l < 2 ^ 64"
  shows "length_block l = word_bytes 0 @ word_bytes (of_nat l)"
proof -
  have hi: "l div 256 ^ (15 - i) = 0" if "i < 8" for i
  proof -
    have "(2 :: nat) ^ 64 = 256 ^ 8" by simp
    also have "\<dots> \<le> 256 ^ (15 - i)"
      using that by (intro power_increasing) simp_all
    finally show ?thesis using assms by simp
  qed
  have "[0..<16] = [0..<8] @ map (\<lambda>i. i + 8) [0..<8]"
    by (simp add: upt_rec)
  then have "length_block l =
      map (\<lambda>i. of_nat (l div 256 ^ (15 - i))) [0..<8] @
      map (\<lambda>i. of_nat (l div 256 ^ (15 - (i + 8)))) [0..<8]"
    by (simp add: length_block_def comp_def)
  also have "map (\<lambda>i. of_nat (l div 256 ^ (15 - i))) [0..<8] = (replicate 8 0 :: byte list)"
  proof -
    have "map (\<lambda>i. of_nat (l div 256 ^ (15 - i))) [0..<8] = map (\<lambda>i. (0 :: byte)) [0..<8]"
      by (intro map_cong) (simp_all add: hi)
    then show ?thesis by (simp only: map_replicate_const length_upt) simp
  qed
  also have "map (\<lambda>i. of_nat (l div 256 ^ (15 - (i + 8)))) [0..<8] =
      (map (\<lambda>i. of_nat (l div 256 ^ (7 - i))) [0..<8] :: byte list)"
    by (intro map_cong) simp_all
  finally show ?thesis
    by (simp only: word_bytes_0 word_bytes_of_nat [OF assms])
qed

lemma sha512_padding_pad_message:
  assumes "8 * length msg < 2 ^ 64"
  shows "msg @ sha512_padding (length msg) = pad_message msg"
proof -
  have "push_bit 3 (of_nat (length msg) :: u64) = of_nat (8 * length msg)"
    by (simp add: push_bit_eq_mult)
  then show ?thesis
    by (simp add: sha512_padding_def pad_message_def Let_def put_u64_word_bytes
        length_block_u64 [OF assms] zero_bytes del: replicate.simps)
qed

lemma sha512_Sum_SHA512:
  assumes "8 * length msg < 2 ^ 64"
  shows "sha512_Sum msg = SHA512 msg"
  by (simp add: sha512_Sum_def SHA512_def sha512_padding_pad_message [OF assms]
      block_hash_blocks regs_bytes_word_bytes)

subsection \<open>The keyed hash\<close>

text \<open>
  The two padded keys of \<open>hmac.New\<close> are the key, filled with zero bytes to the
  block size, xored with \<open>ipad\<close> and \<open>opad\<close>; the key that is hashed first is the key
  longer than a block.
\<close>

lemma map2_replicate:
  "length xs = n \<Longrightarrow> map2 f xs (replicate n c) = map (\<lambda>b. f b c) xs"
  by (induction xs arbitrary: n) auto

lemma hmac_pad_xor:
  assumes "length k \<le> 128"
  shows "hmac_pad c k = map2 (XOR) (k @ replicate (128 - length k) 0) (replicate 128 c)"
  using assms by (simp add: hmac_pad_def map2_replicate)

lemma length_hmac_key: "length (hmac_key key) \<le> 128"
  by (simp add: hmac_key_def length_sha512_Sum)

lemma hmac_key_SHA512:
  assumes "length key < 2 ^ 61"
  shows "hmac_key key = (if length key > 128 then SHA512 key else key)"
proof -
  have "8 * length key < 2 ^ 64" using assms by simp
  then show ?thesis by (simp add: hmac_key_def sha512_Sum_SHA512)
qed

lemma hmac_sha512_HMAC_SHA512:
  assumes "length key < 2 ^ 61" and "length message + 128 < 2 ^ 61"
  shows "hmac_sha512 key message = HMAC_SHA512 key message"
proof -
  define k where "k = hmac_key key"
  have k: "length k \<le> 128"
    by (simp add: k_def length_hmac_key)
  have k': "k = (if length key > 128 then SHA512 key else key)"
    by (simp add: k_def hmac_key_SHA512 [OF assms(1)])
  have len_i: "length (hmac_pad 0x36 k @ message) = 128 + length message"
    using k by (simp add: hmac_pad_def)
  have "8 * length (hmac_pad 0x36 k @ message) < 2 ^ 64"
    unfolding len_i using assms(2) by simp
  then have inner: "sha512_Sum (hmac_pad 0x36 k @ message) = SHA512 (hmac_pad 0x36 k @ message)"
    by (rule sha512_Sum_SHA512)
  have "length (SHA512 (hmac_pad 0x36 k @ message)) = 64"
    using length_sha512_Sum [of "hmac_pad 0x36 k @ message"] by (simp only: inner)
  then have len_o: "length (hmac_pad 0x5c k @ SHA512 (hmac_pad 0x36 k @ message)) = 192"
    using k by (simp add: hmac_pad_def)
  have "8 * length (hmac_pad 0x5c k @ SHA512 (hmac_pad 0x36 k @ message)) < 2 ^ 64"
    unfolding len_o by simp
  then have outer: "sha512_Sum (hmac_pad 0x5c k @ SHA512 (hmac_pad 0x36 k @ message)) =
      SHA512 (hmac_pad 0x5c k @ SHA512 (hmac_pad 0x36 k @ message))"
    by (rule sha512_Sum_SHA512)
  have "hmac_sha512 key message =
      SHA512 (hmac_pad 0x5c k @ SHA512 (hmac_pad 0x36 k @ message))"
    by (simp add: hmac_sha512_def k_def [symmetric] inner outer)
  also have "\<dots> = HMAC SHA512 128 key message"
    by (simp only: HMAC_def Let_def k' [symmetric] hmac_pad_xor [OF k])
  finally show ?thesis by (simp add: HMAC_SHA512_def)
qed

subsection \<open>The hexadecimal text\<close>

lemma hextable_hex_digit: "n < 16 \<Longrightarrow> hextable ! n = hex_digit n"
proof -
  assume "n < 16"
  then have n: "n < 16 - 0" by simp
  have "map ((!) hextable) [0..<16] = map hex_digit [0..<16]"
    by code_simp
  then have "map ((!) hextable) [0..<16] ! n = map hex_digit [0..<16] ! n"
    by (rule arg_cong)
  then show ?thesis
    by (simp only: nth_map_upt [OF n] add_0)
qed

lemma hex_high: "unat (drop_bit 4 (v :: byte)) = unat v div 16"
  by (simp add: drop_bit_eq_div unat_div)

lemma hex_low: "unat ((v :: byte) AND 0x0f) = unat v mod 16"
proof -
  have "(v AND 0x0f) = take_bit 4 v"
    by (simp add: take_bit_eq_mask mask_eq_exp_minus_1)
  then show ?thesis
    by (simp add: take_bit_eq_mod unat_mod)
qed

lemma hex_EncodeToString_lower_hex: "hex_EncodeToString src = lower_hex src"
proof -
  have "unat v div 16 < 16" for v :: byte
  proof -
    have "unat v < 2 ^ 8" using unsigned_less [of v] by simp
    then show ?thesis by simp
  qed
  then show ?thesis
    by (simp add: hex_EncodeToString_def lower_hex_def hex_high hex_low hextable_hex_digit)
qed

subsection \<open>The signature\<close>

text \<open>
  Claim C4. For every secret and every message, \<open>signHmacSha512\<close> returns the lowercase
  hexadecimal text of the HMAC-SHA512 digest of exactly the message bytes under exactly
  the secret bytes, where HMAC is the construction of RFC 2104 with a block of 128 bytes
  and SHA-512 is the hash of FIPS 180-4, both defined above independently of the program:
  a secret longer than 128 bytes is hashed first, a shorter one is filled with zero bytes.
  The text has 128 characters for the 64 bytes (512 bits) of the digest, all of them among
  \<open>0123456789abcdef\<close>. For the secret \<open>abc\<close> and the body \<open>method=Trade&nonce=1\<close> the
  program returns the known answer. The secret and the message are shorter than
  \<open>2 ^ 61\<close> bytes, as every byte slice of a Go program is: the program counts the bits of
  a hashed message in 64 bits, the standard in 128.
\<close>

theorem signHmacSha512_hex_digest:
  assumes "length secret < 2 ^ 61" and "length message + 128 < 2 ^ 61"
  shows "signHmacSha512 secret message = lower_hex (HMAC_SHA512 secret message)
   \<and> length (HMAC_SHA512 secret message) = 64
   \<and> length (signHmacSha512 secret message) = 128
   \<and> set (signHmacSha512 secret message) \<subseteq> set ''0123456789abcdef''
   \<and> signHmacSha512 (bytes_of ''abc'') (bytes_of ''method=Trade&nonce=1'') =
       ''ae816dd0aea9c56278e2e48ec9b4228dd05ccde4ff01ba111b10e48e55539f36a7d7c855d35f982cfc8e131c8cd99f2f1f82b1340559baa1f2630053a354c380''"
proof -
  have h: "hmac_sha512 secret message = HMAC_SHA512 secret message"
    using assms by (rule hmac_sha512_HMAC_SHA512)
  have "signHmacSha512 secret message = lower_hex (HMAC_SHA512 secret message)"
    by (simp only: signHmacSha512_def hex_EncodeToString_lower_hex h)
  moreover have "length (HMAC_SHA512 secret message) = 64"
    using length_hmac_sha512 [of secret message] by (simp only: h)
  moreover have "length (signHmacSha512 secret message) = 128"
    by (simp add: signHmacSha512_def length_hex_EncodeToString length_hmac_sha512)
  moreover have "set (signHmacSha512 secret message) \<subseteq> set ''0123456789abcdef''"
    using set_hex_EncodeToString [of "hmac_sha512 secret message"]
    by (simp add: signHmacSha512_def hextable_def)
  ultimately show ?thesis
    using kat_sign by (intro conjI)
qed

text \<open>
  C4 at the secret \<open>abc\<close> and the body \<open>method=Trade&nonce=1\<close>: the program and the
  standards give the same text, the known answer.
\<close>

theorem signHmacSha512_hex_digest_witness:
  "length (bytes_of ''abc'') < 2 ^ 61
   \<and> length (bytes_of ''method=Trade&nonce=1'') + 128 < 2 ^ 61
   \<and> signHmacSha512 (bytes_of ''abc'') (bytes_of ''method=Trade&nonce=1'') =
       lower_hex (HMAC_SHA512 (bytes_of ''abc'') (bytes_of ''method=Trade&nonce=1''))
   \<and> lower_hex (HMAC_SHA512 (bytes_of ''abc'') (bytes_of ''method=Trade&nonce=1'')) =
       ''ae816dd0aea9c56278e2e48ec9b4228dd05ccde4ff01ba111b10e48e55539f36a7d7c855d35f982cfc8e131c8cd99f2f1f82b1340559baa1f2630053a354c380''"
proof -
  have a: "length (bytes_of ''abc'') < 2 ^ 61"
    by (simp add: bytes_of_def)
  have b: "length (bytes_of ''method=Trade&nonce=1'') + 128 < 2 ^ 61"
    by (simp add: bytes_of_def)
  note c = signHmacSha512_hex_digest [OF a b]
  from c have e: "signHmacSha512 (bytes_of ''abc'') (bytes_of ''method=Trade&nonce=1'') =
      lower_hex (HMAC_SHA512 (bytes_of ''abc'') (bytes_of ''method=Trade&nonce=1''))"
    by (elim conjE)
  from c have k: "signHmacSha512 (bytes_of ''abc'') (bytes_of ''method=Trade&nonce=1'') =
      ''ae816dd0aea9c56278e2e48ec9b4228dd05ccde4ff01ba111b10e48e55539f36a7d7c855d35f982cfc8e131c8cd99f2f1f82b1340559baa1f2630053a354c380''"
    by (elim conjE)
  from k have "lower_hex (HMAC_SHA512 (bytes_of ''abc'') (bytes_of ''method=Trade&nonce=1'')) =
      ''ae816dd0aea9c56278e2e48ec9b4228dd05ccde4ff01ba111b10e48e55539f36a7d7c855d35f982cfc8e131c8cd99f2f1f82b1340559baa1f2630053a354c380''"
    by (simp only: e)
  with a b e show ?thesis by (intro conjI)
qed

section \<open>The body and the headers of an authenticated call\<close>

subsection \<open>What \<open>Encode\<close> writes\<close>

lemma join_Cons: "join sep (x # xs) = (if xs = [] then x else x @ sep @ join sep xs)"
  by (cases xs) simp_all

lemma join_append:
  "join sep (xs @ ys) =
     (if xs = [] then join sep ys else if ys = [] then join sep xs
      else join sep xs @ sep @ join sep ys)"
  by (induction xs) (auto simp: join_Cons)

lemma join_eq_Nil: "\<forall>s \<in> set segs. s \<noteq> [] \<Longrightarrow> join sep segs = [] \<longleftrightarrow> segs = []"
  by (cases segs) (auto simp: join_Cons)

lemma write_segments_Nil [simp]: "write_segments buf [] = buf"
  by (simp add: write_segments_def)

lemma write_segments_append:
  assumes "\<forall>s \<in> set a. s \<noteq> []"
  shows "write_segments (write_segments buf a) b = write_segments buf (a @ b)"
  using assms join_eq_Nil [of a "''&''"]
  by (auto simp: write_segments_def join_append)

lemma Encode_values_eq:
  "Encode_values ke vs buf = write_segments buf (map (\<lambda>x. ke @ ''='' @ QueryEscape x) vs)"
proof (induction vs arbitrary: buf)
  case Nil
  then show ?case by simp
next
  case (Cons x vs)
  have "write_segments (write_segments buf [ke @ ''='' @ QueryEscape x])
          (map (\<lambda>x. ke @ ''='' @ QueryEscape x) vs)
      = write_segments buf ([ke @ ''='' @ QueryEscape x] @ map (\<lambda>x. ke @ ''='' @ QueryEscape x) vs)"
    by (rule write_segments_append) simp
  moreover have "write_segments buf [ke @ ''='' @ QueryEscape x]
      = (if buf \<noteq> [] then buf @ ''&'' else buf) @ ke @ ''='' @ QueryEscape x"
    by (simp add: write_segments_def)
  ultimately show ?case using Cons.IH by simp
qed

lemma Encode_values_key_pairs:
  "Encode_values (QueryEscape k) (Values_Get v k) buf
     = write_segments buf (map encode_pair (key_pairs v k))"
  by (simp add: Encode_values_eq key_pairs_def encode_pair_def comp_def)

lemma encode_pair_not_Nil: "encode_pair p \<noteq> []"
  by (simp add: encode_pair_def)

lemma Encode_keys_eq:
  "Encode_keys v ks buf = write_segments buf (map encode_pair (concat (map (key_pairs v) ks)))"
proof (induction ks arbitrary: buf)
  case Nil
  then show ?case by simp
next
  case (Cons k ks)
  have "write_segments (write_segments buf (map encode_pair (key_pairs v k)))
          (map encode_pair (concat (map (key_pairs v) ks)))
      = write_segments buf
          (map encode_pair (key_pairs v k) @ map encode_pair (concat (map (key_pairs v) ks)))"
    by (rule write_segments_append) (simp add: encode_pair_not_Nil)
  then show ?case using Cons.IH by (simp add: Encode_values_key_pairs)
qed

lemma write_segments_empty_buf: "write_segments [] segs = join ''&'' segs"
  by (cases segs) (simp_all add: write_segments_def)

lemma Values_Encode_eq:
  "Values_Encode v = join ''&'' (map encode_pair (concat (map (key_pairs v) (sort (map fst v)))))"
  by (cases "v = []") (simp_all add: Values_Encode_def Encode_keys_eq write_segments_empty_buf)

lemma filter_key_pairs:
  "distinct ks \<Longrightarrow>
   filter (\<lambda>p. fst p = k) (concat (map (key_pairs v) ks))
     = (if k \<in> set ks then key_pairs v k else [])"
proof (induction ks)
  case Nil
  then show ?case by simp
next
  case (Cons a ks)
  have own: "filter (\<lambda>p. fst p = k) (key_pairs v a) = (if a = k then key_pairs v a else [])"
    by (auto simp: key_pairs_def filter_empty_conv)
  from Cons show ?case by (auto simp: own)
qed

lemma filter_fst_eq: "filter (\<lambda>p. fst p = k) ps = map (Pair k) (map snd (filter (\<lambda>p. fst p = k) ps))"
  by (induction ps) auto

lemma holds_pairs_filter:
  assumes "holds_pairs v ps"
  shows "filter (\<lambda>p. fst p = k) (concat (map (key_pairs v) (sort (map fst v))))
     = filter (\<lambda>p. fst p = k) ps"
proof -
  from assms have d: "distinct (sort (map fst v))" by (simp add: holds_pairs_def)
  show ?thesis
  proof (cases "k \<in> fst ` set ps")
    case True
    with assms have "k \<in> set (sort (map fst v))" by (simp add: holds_pairs_def)
    with filter_key_pairs [OF d, of k v] assms show ?thesis
      using filter_fst_eq [of k ps] by (simp add: key_pairs_def holds_pairs_def)
  next
    case False
    with assms have "k \<notin> set (sort (map fst v))" by (simp add: holds_pairs_def)
    moreover from False have "filter (\<lambda>p. fst p = k) ps = []"
      by (auto simp: filter_empty_conv)
    ultimately show ?thesis using filter_key_pairs [OF d, of k v] by simp
  qed
qed

lemma mset_eq_by_key:
  assumes "\<And>k. filter (\<lambda>p. fst p = k) xs = filter (\<lambda>p. fst p = k) ys"
  shows "mset xs = mset ys"
proof (rule multiset_eqI)
  fix p :: "'a \<times> 'b"
  have "count (mset zs) p = count (mset (filter (\<lambda>q. fst q = fst p) zs)) p" for zs :: "('a \<times> 'b) list"
    by (induction zs) auto
  then show "count (mset xs) p = count (mset ys) p"
    using assms [of "fst p"] by metis
qed

lemma sorted_key_groups:
  "sorted ks \<Longrightarrow> sorted (map fst (concat (map (key_pairs v) ks)))"
proof (induction ks)
  case Nil
  then show ?case by simp
next
  case (Cons a ks)
  have "\<forall>x \<in> set (map fst (key_pairs v a)). x = a" by (auto simp: key_pairs_def)
  moreover have "\<forall>y \<in> set (map fst (concat (map (key_pairs v) ks))). y \<in> set ks"
    by (auto simp: key_pairs_def)
  moreover have "sorted (map fst (key_pairs v a))"
    by (simp add: key_pairs_def comp_def sorted_wrt_iff_nth_less)
  ultimately show ?case using Cons by (auto simp: sorted_append)
qed

lemma holds_pairs_sort_key:
  assumes "holds_pairs v ps"
  shows "concat (map (key_pairs v) (sort (map fst v))) = sort_key fst ps"
proof (rule properties_for_sort_key [symmetric])
  let ?L = "concat (map (key_pairs v) (sort (map fst v)))"
  have f: "filter (\<lambda>p. fst p = k) ?L = filter (\<lambda>p. fst p = k) ps" for k
    using assms by (rule holds_pairs_filter)
  then show "mset ?L = mset ps" by (rule mset_eq_by_key)
  show "filter (\<lambda>x. fst q = fst x) ?L = filter (\<lambda>x. fst q = fst x) ps" if "q \<in> set ?L" for q
    using f [of "fst q"] by (simp add: eq_commute)
  show "sorted (map fst ?L)" by (rule sorted_key_groups) simp
qed

lemma holds_pairs_Encode:
  "holds_pairs v ps \<Longrightarrow> Values_Encode v = canonical_body ps"
  by (simp add: Values_Encode_eq holds_pairs_sort_key canonical_body_def)

subsection \<open>The form of \<open>callPrivate\<close>\<close>

lemma map_of_Values_Add_Some:
  "map_of (map (\<lambda>(k, xs). if k = key then (k, xs @ [val]) else (k, xs)) v) k'
     = map_option (\<lambda>xs. if k' = key then xs @ [val] else xs) (map_of v k')"
  by (induction v) auto

lemma Values_Get_Add:
  "Values_Get (Values_Add v key val) k
     = (if k = key then Values_Get v key @ [val] else Values_Get v k)"
  by (auto simp: Values_Get_def Values_Add_def map_of_Values_Add_Some split: option.splits)

lemma keys_Values_Add:
  "map fst (Values_Add v key val)
     = (if key \<in> set (map fst v) then map fst v else map fst v @ [key])"
proof -
  have "map fst (map (\<lambda>(k, xs). if k = key then (k, xs @ [val]) else (k, xs)) v) = map fst v"
    by (induction v) auto
  moreover have "map_of v key = None \<longleftrightarrow> key \<notin> set (map fst v)"
    by (simp add: map_of_eq_None_iff)
  ultimately show ?thesis
    by (auto simp: Values_Add_def split: option.splits)
qed

lemma holds_pairs_Add:
  assumes "holds_pairs v ps"
  shows "holds_pairs (Values_Add v key val) (ps @ [(key, val)])"
  using assms
  by (auto simp: holds_pairs_def keys_Values_Add Values_Get_Add)

lemma holds_pairs_foldl:
  "holds_pairs v ps \<Longrightarrow>
   holds_pairs (foldl (\<lambda>form arg. Values_Add form (name arg) (value' arg)) v args)
     (ps @ map (\<lambda>arg. (name arg, value' arg)) args)"
proof (induction args arbitrary: v ps)
  case Nil
  then show ?case by simp
next
  case (Cons a args)
  from Cons.prems have "holds_pairs (Values_Add v (name a) (value' a)) (ps @ [(name a, value' a)])"
    by (rule holds_pairs_Add)
  from Cons.IH [OF this] show ?case by simp
qed

lemma holds_pairs_private_form:
  "holds_pairs (private_form method nonce args) (form_pairs method nonce args)"
proof -
  have "holds_pairs [(''method'', [method]), (''nonce'', [FormatUint nonce])]
          [(''method'', method), (''nonce'', FormatUint nonce)]"
    by (auto simp: holds_pairs_def Values_Get_def)
  from holds_pairs_foldl [OF this, of args] show ?thesis
    by (simp add: private_form_def form_pairs_def)
qed

lemma private_form_Encode:
  "Values_Encode (private_form method nonce args) = canonical_body (form_pairs method nonce args)"
  using holds_pairs_private_form by (rule holds_pairs_Encode)

lemma canonical_names:
  "CanonicalMIMEHeaderKey ''Content-type'' = ''Content-Type''"
  "CanonicalMIMEHeaderKey ''Key'' = ''Key''"
  "CanonicalMIMEHeaderKey ''Sign'' = ''Sign''"
  by code_simp+

lemma private_request_simps:
  "req_method (private_request c m args n) = ''POST''"
  "req_url (private_request c m args n) = apiTrade"
  "req_body (private_request c m args n) = Values_Encode (private_form m n args)"
  "Header_values (private_request c m args n) ''Key'' = [Key c]"
  "Header_values (private_request c m args n) ''Sign''
     = [signHmacSha512 (bytes_of (Secret c)) (bytes_of (Values_Encode (private_form m n args)))]"
  "Header_values (private_request c m args n) ''Content-type'' = [''application/x-www-form-urlencoded'']"
  by (simp_all add: private_request_def Header_Add_def Header_values_def Let_def canonical_names)

lemma canonical_body_examples:
  "join ''&'' (map encode_pair (sort_key fst
      [(''method'', ''Trade''), (''nonce'', ''1'')])) = ''method=Trade&nonce=1''"
  "join ''&'' (map encode_pair (sort_key fst
      [(''method'', ''Trade''), (''nonce'', ''42''), (''rate'', ''0.5''), (''pair'', ''ltc_btc''),
       (''note'', ''a b&c''), (''rate'', ''0.25'')])) =
     ''method=Trade&nonce=42&note=a+b%26c&pair=ltc_btc&rate=0.5&rate=0.25''"
  by code_simp+

subsection \<open>The request\<close>

text \<open>
  Claim C7. When the nonce store returns \<open>nonce\<close>, \<open>callPrivate\<close> hands one request to
  the HTTP client and returns its answer. The body of the request is made of the
  parameter \<open>method\<close>, the parameter \<open>nonce\<close> with the decimal text of the nonce, and
  all supplied parameters: sorted by name (parameters of one name in the order given),
  each written \<open>name=value\<close> with both parts query-escaped, joined by \<open>&\<close>. The
  request carries under \<open>Sign\<close> the signature of exactly that body under the secret of
  the credential, and under \<open>Key\<close> the public key of the credential.
\<close>

theorem callPrivate_signed_request:
  assumes "GetAndIncrementNonce s = Inr (nonce, s')"
  shows "callPrivate query credential s method args =
       (case query (private_request credential method args nonce) of
          Inl e \<Rightarrow> Inl e
        | Inr response \<Rightarrow> Inr (response, s'))
   \<and> req_method (private_request credential method args nonce) = ''POST''
   \<and> req_url (private_request credential method args nonce) = ''https://yobit.net/tapi/''
   \<and> req_body (private_request credential method args nonce) =
       join ''&'' (map encode_pair (sort_key fst (form_pairs method nonce args)))
   \<and> sorted (map fst (sort_key fst (form_pairs method nonce args)))
   \<and> mset (sort_key fst (form_pairs method nonce args)) = mset (form_pairs method nonce args)
   \<and> Header_values (private_request credential method args nonce) ''Sign'' =
       [signHmacSha512 (bytes_of (Secret credential))
          (bytes_of (req_body (private_request credential method args nonce)))]
   \<and> Header_values (private_request credential method args nonce) ''Key'' = [Key credential]"
proof -
  have "callPrivate query credential s method args =
       (case query (private_request credential method args nonce) of
          Inl e \<Rightarrow> Inl e
        | Inr response \<Rightarrow> Inr (response, s'))"
    by (simp add: callPrivate_def assms)
  moreover have "req_body (private_request credential method args nonce) =
       join ''&'' (map encode_pair (sort_key fst (form_pairs method nonce args)))"
    by (simp only: private_request_simps private_form_Encode canonical_body_def)
  moreover have "Header_values (private_request credential method args nonce) ''Sign'' =
       [signHmacSha512 (bytes_of (Secret credential))
          (bytes_of (req_body (private_request credential method args nonce)))]"
    by (simp only: private_request_simps)
  moreover have "req_url (private_request credential method args nonce) = ''https://yobit.net/tapi/''"
    by (simp only: private_request_simps apiTrade_def)
  moreover have "sorted (map fst (sort_key fst (form_pairs method nonce args)))"
    by (rule sorted_sort_key)
  moreover have "mset (sort_key fst (form_pairs method nonce args)) = mset (form_pairs method nonce args)"
    by (rule mset_sort)
  ultimately show ?thesis
    using private_request_simps(1,4) [of credential "method" args nonce] by (intro conjI)
qed

text \<open>
  C7 at two calls. From a counter file with \<open>0\<close>, \<open>Trade\<close> without parameters under the
  secret \<open>abc\<close> sends the body \<open>method=Trade&nonce=1\<close> and its known signature. From a
  counter file with \<open>41\<close>, \<open>Trade\<close> with four parameters sends them sorted by name after
  escaping, the two rates in the order given.
\<close>

theorem callPrivate_signed_request_witness:
  "GetAndIncrementNonce (stored ''0'') = Inr (1, stored ''1'')
   \<and> callPrivate (\<lambda>req. Inr (req_body req)) \<lparr>Key = ''k'', Secret = ''abc''\<rparr> (stored ''0'') ''Trade'' [] =
       Inr (''method=Trade&nonce=1'', stored ''1'')
   \<and> Header_values (private_request \<lparr>Key = ''k'', Secret = ''abc''\<rparr> ''Trade'' [] 1) ''Sign'' =
       [''ae816dd0aea9c56278e2e48ec9b4228dd05ccde4ff01ba111b10e48e55539f36a7d7c855d35f982cfc8e131c8cd99f2f1f82b1340559baa1f2630053a354c380'']
   \<and> GetAndIncrementNonce (stored ''41'') = Inr (42, stored ''42'')
   \<and> req_body (private_request \<lparr>Key = ''k'', Secret = ''abc''\<rparr> ''Trade''
         [CallArg ''rate'' ''0.5'', CallArg ''pair'' ''ltc_btc'', CallArg ''note'' ''a b&c'',
          CallArg ''rate'' ''0.25''] 42) =
       ''method=Trade&nonce=42&note=a+b%26c&pair=ltc_btc&rate=0.5&rate=0.25''
   \<and> Header_values (private_request \<lparr>Key = ''k'', Secret = ''abc''\<rparr> ''Trade''
         [CallArg ''rate'' ''0.5'', CallArg ''pair'' ''ltc_btc'', CallArg ''note'' ''a b&c'',
          CallArg ''rate'' ''0.25''] 42) ''Key'' = [''k'']"
proof -
  have f1: "FormatUint 1 = ''1''"
    by (simp add: FormatUint_def formatBits.simps digits_def)
  have g1: "GetAndIncrementNonce (stored ''0'') = Inr (1, stored ''1'')"
    using GetAndIncrementNonce_stored [of 0] by (simp add: FormatUint_small f1)
  have g2: "GetAndIncrementNonce (stored ''41'') = Inr (42, stored ''42'')"
    using GetAndIncrementNonce_existing [of "stored ''41''" "''41''" 41]
    by (simp add: stored_def ParseUint_small FormatUint_small2)
  let ?C = "\<lparr>Key = ''k'', Secret = ''abc''\<rparr>"
  let ?args = "[CallArg ''rate'' ''0.5'', CallArg ''pair'' ''ltc_btc'', CallArg ''note'' ''a b&c'',
      CallArg ''rate'' ''0.25'']"
  note a = callPrivate_signed_request [OF g1, of "\<lambda>req. Inr (req_body req)" ?C "''Trade''" "[]"]
  note b = callPrivate_signed_request [OF g2, of "\<lambda>req. Inr (req_body req)" ?C "''Trade''" ?args]
  from a have a1: "callPrivate (\<lambda>req. Inr (req_body req)) ?C (stored ''0'') ''Trade'' [] =
      Inr (req_body (private_request ?C ''Trade'' [] 1), stored ''1'')"
    by simp
  from a have a2: "req_body (private_request ?C ''Trade'' [] 1) =
      join ''&'' (map encode_pair (sort_key fst (form_pairs ''Trade'' 1 [])))"
    by (elim conjE)
  from a have a3: "Header_values (private_request ?C ''Trade'' [] 1) ''Sign'' =
      [signHmacSha512 (bytes_of (Secret ?C)) (bytes_of (req_body (private_request ?C ''Trade'' [] 1)))]"
    by (elim conjE)
  from b have b2: "req_body (private_request ?C ''Trade'' ?args 42) =
      join ''&'' (map encode_pair (sort_key fst (form_pairs ''Trade'' 42 ?args)))"
    by (elim conjE)
  from b have b3: "Header_values (private_request ?C ''Trade'' ?args 42) ''Key'' = [Key ?C]"
    by (elim conjE)
  have fa: "form_pairs ''Trade'' 1 [] = [(''method'', ''Trade''), (''nonce'', ''1'')]"
    by (simp add: form_pairs_def f1)
  have fb: "form_pairs ''Trade'' 42 ?args =
      [(''method'', ''Trade''), (''nonce'', ''42''), (''rate'', ''0.5''), (''pair'', ''ltc_btc''),
       (''note'', ''a b&c''), (''rate'', ''0.25'')]"
    by (simp add: form_pairs_def FormatUint_small2)
  have ba: "req_body (private_request ?C ''Trade'' [] 1) = ''method=Trade&nonce=1''"
    by (simp only: a2 fa canonical_body_examples)
  have "callPrivate (\<lambda>req. Inr (req_body req)) ?C (stored ''0'') ''Trade'' [] =
      Inr (''method=Trade&nonce=1'', stored ''1'')"
    by (simp only: a1 ba)
  moreover have "Header_values (private_request ?C ''Trade'' [] 1) ''Sign'' =
      [''ae816dd0aea9c56278e2e48ec9b4228dd05ccde4ff01ba111b10e48e55539f36a7d7c855d35f982cfc8e131c8cd99f2f1f82b1340559baa1f2630053a354c380'']"
    using a3 by (simp add: ba kat_sign)
  moreover have "req_body (private_request ?C ''Trade'' ?args 42) =
      ''method=Trade&nonce=42&note=a+b%26c&pair=ltc_btc&rate=0.5&rate=0.25''"
    by (simp only: b2 fb canonical_body_examples)
  moreover have "Header_values (private_request ?C ''Trade'' ?args 42) ''Key'' = [''k'']"
    using b3 by simp
  ultimately show ?thesis using g1 g2 by (intro conjI)
qed

end
